theory Spec2Isabelle
  imports Main "HOL-Library.Multiset" "HOL-Library.AList" "HOL-Library.List_Lexorder"
    "HOL-Library.Char_ord"
begin

section \<open>The api package of imagekit-go\<close>

text \<open>
  Go strings are byte sequences: a \<^typ>\<open>string\<close> here is the list of the bytes of the Go
  string, and \<^const>\<open>length\<close> is Go's \<open>len\<close>.
\<close>

subsection \<open>Library functions of package strings\<close>

text \<open>\<open>strings.HasPrefix(s, p)\<close>.\<close>

definition HasPrefix :: "string \<Rightarrow> string \<Rightarrow> bool" where
  "HasPrefix s p = (take (length p) s = p)"

text \<open>\<open>strings.Trim(s, cutset)\<close>: every leading and trailing byte of the cutset goes.\<close>

definition Trim :: "string \<Rightarrow> string \<Rightarrow> string" where
  "Trim s cutset =
     rev (dropWhile (\<lambda>c. c \<in> set cutset) (rev (dropWhile (\<lambda>c. c \<in> set cutset) s)))"

text \<open>\<open>strings.Join(elems, sep)\<close>.\<close>

fun Join :: "string list \<Rightarrow> string \<Rightarrow> string" where
  "Join [] sep = []"
| "Join [e] sep = e"
| "Join (e # es) sep = e @ sep @ Join es sep"

subsection \<open>BuildPath\<close>

text \<open>
  A part is an \<open>interface{}\<close>; the type switch of \<open>BuildPath\<close> has three branches: a
  string, a \<open>fmt.Stringer\<close> (given here by the text its \<open>String\<close> method returns), and
  any other value, rendered by \<open>fmt.Sprintf("%v", _)\<close>, which is the parameter \<open>sprintf_v\<close>.
\<close>

datatype 'a part = PartString string | PartStringer string | PartOther 'a

fun BuildPath_loop :: "('a \<Rightarrow> string) \<Rightarrow> string list \<Rightarrow> 'a part list \<Rightarrow> string list" where
  "BuildPath_loop sprintf_v partsSlice [] = partsSlice"
| "BuildPath_loop sprintf_v partsSlice (part # parts) =
     (let partRes = (case part of
                       PartString partVal \<Rightarrow> partVal
                     | PartStringer partVal \<Rightarrow> partVal
                     | PartOther partVal \<Rightarrow> sprintf_v partVal)
      in if length partRes > 0
         then BuildPath_loop sprintf_v (partsSlice @ [Trim partRes ''/'']) parts
         else BuildPath_loop sprintf_v partsSlice parts)"

definition BuildPath :: "('a \<Rightarrow> string) \<Rightarrow> 'a part list \<Rightarrow> string" where
  "BuildPath sprintf_v parts = Join (BuildPath_loop sprintf_v [] parts) ''/''"

text \<open>
  The path builder as the specification words it: render each part, trim the separators,
  keep the trimmed text when it is not empty, join with one separator.
\<close>

definition render_part :: "('a \<Rightarrow> string) \<Rightarrow> 'a part \<Rightarrow> string" where
  "render_part sprintf_v part =
     (case part of PartString v \<Rightarrow> v | PartStringer v \<Rightarrow> v | PartOther v \<Rightarrow> sprintf_v v)"

definition BuildPath_spec :: "('a \<Rightarrow> string) \<Rightarrow> 'a part list \<Rightarrow> string" where
  "BuildPath_spec sprintf_v parts =
     Join (filter (\<lambda>s. s \<noteq> []) (map (\<lambda>p. Trim (render_part sprintf_v p) ''/'') parts)) ''/''"

definition only_separators :: "string \<Rightarrow> bool" where
  "only_separators s = (s \<noteq> [] \<and> set s \<subseteq> {CHR ''/''})"

subsection \<open>Package unicode/utf8\<close>

type_synonym rune = nat

definition RuneError :: rune where "RuneError = 0xFFFD"
definition RuneSelf :: nat where "RuneSelf = 0x80"
definition MaxRune :: rune where "MaxRune = 0x10FFFF"
definition UTFMax :: nat where "UTFMax = 4"

definition byte :: "char \<Rightarrow> nat" where "byte c = of_char c"

definition continuation :: "nat \<Rightarrow> nat \<Rightarrow> char \<Rightarrow> bool" where
  "continuation lo hi c = (lo \<le> byte c \<and> byte c \<le> hi)"

fun DecodeRuneInString :: "string \<Rightarrow> rune \<times> nat" where
  "DecodeRuneInString [] = (RuneError, 0)"
| "DecodeRuneInString (c0 # s) =
     (let s0 = byte c0 in
      if s0 < 0x80 then (s0, 1)
      else if 0xC2 \<le> s0 \<and> s0 \<le> 0xDF then
        (case s of
           c1 # _ \<Rightarrow>
             if continuation 0x80 0xBF c1 then ((s0 mod 0x20) * 0x40 + byte c1 mod 0x40, 2)
             else (RuneError, 1)
         | _ \<Rightarrow> (RuneError, 1))
      else if 0xE0 \<le> s0 \<and> s0 \<le> 0xEF then
        (case s of
           c1 # c2 # _ \<Rightarrow>
             if continuation (if s0 = 0xE0 then 0xA0 else 0x80) (if s0 = 0xED then 0x9F else 0xBF) c1
                \<and> continuation 0x80 0xBF c2
             then ((s0 mod 0x10) * 0x1000 + (byte c1 mod 0x40) * 0x40 + byte c2 mod 0x40, 3)
             else (RuneError, 1)
         | _ \<Rightarrow> (RuneError, 1))
      else if 0xF0 \<le> s0 \<and> s0 \<le> 0xF4 then
        (case s of
           c1 # c2 # c3 # _ \<Rightarrow>
             if continuation (if s0 = 0xF0 then 0x90 else 0x80) (if s0 = 0xF4 then 0x8F else 0xBF) c1
                \<and> continuation 0x80 0xBF c2 \<and> continuation 0x80 0xBF c3
             then ((s0 mod 0x08) * 0x40000 + (byte c1 mod 0x40) * 0x1000
                     + (byte c2 mod 0x40) * 0x40 + byte c3 mod 0x40, 4)
             else (RuneError, 1)
         | _ \<Rightarrow> (RuneError, 1))
      else (RuneError, 1))"

definition ValidRune :: "rune \<Rightarrow> bool" where
  "ValidRune r = (r < 0xD800 \<or> (0xDFFF < r \<and> r \<le> MaxRune))"

definition EncodeRune3 :: "rune \<Rightarrow> string" where
  "EncodeRune3 r = [char_of (0xE0 + r div 0x1000), char_of (0x80 + r div 0x40 mod 0x40),
                    char_of (0x80 + r mod 0x40)]"

definition AppendRune :: "string \<Rightarrow> rune \<Rightarrow> string" where
  "AppendRune p r =
     (if r \<le> 0x7F then p @ [char_of r]
      else if r \<le> 0x7FF then p @ [char_of (0xC0 + r div 0x40), char_of (0x80 + r mod 0x40)]
      else if r > MaxRune \<or> (0xD800 \<le> r \<and> r \<le> 0xDFFF) then p @ EncodeRune3 RuneError
      else if r \<le> 0xFFFF then p @ EncodeRune3 r
      else p @ [char_of (0xF0 + r div 0x40000), char_of (0x80 + r div 0x1000 mod 0x40),
                char_of (0x80 + r div 0x40 mod 0x40), char_of (0x80 + r mod 0x40)])"

lemma DecodeRuneInString_size: "s \<noteq> [] \<Longrightarrow> 0 < snd (DecodeRuneInString s)"
  by (cases s) (auto simp: Let_def split: list.splits)

declare DecodeRuneInString.simps(2) [simp del]

lemma DecodeRuneInString_less:
  "(r, sz) = DecodeRuneInString s \<Longrightarrow> s \<noteq> [] \<Longrightarrow> length s - sz < length s"
  using DecodeRuneInString_size [of s] by (cases s) (simp_all flip: surjective_pairing add: snd_def split: prod.splits)

lemma DecodeRuneInString_Cons_less:
  "(r, sz) = DecodeRuneInString (c # s) \<Longrightarrow> Suc (length s) - sz < Suc (length s)"
  using DecodeRuneInString_less [of r sz "c # s"] by simp

lemma DecodeRuneInString_take_less:
  "(r, sz) = DecodeRuneInString (take UTFMax (b # s)) \<Longrightarrow> Suc (length s) - sz < Suc (length s)"
  using DecodeRuneInString_size [of "take UTFMax (b # s)"]
  by (simp add: UTFMax_def snd_def split: prod.splits)

function ValidString :: "string \<Rightarrow> bool" where
  "ValidString [] = True"
| "ValidString (c # s) =
     (case DecodeRuneInString (c # s) of
        (r, sz) \<Rightarrow> \<not> (r = RuneError \<and> sz = 1) \<and> ValidString (drop sz (c # s)))"
  by pat_completeness auto
termination
  by (relation "measure length") (auto dest: DecodeRuneInString_Cons_less)

subsection \<open>String literals of encoding/json\<close>

definition hex :: "nat \<Rightarrow> char" where
  "hex d = ''0123456789abcdef'' ! d"

text \<open>\<open>htmlSafeSet\<close>: the ASCII bytes that \<open>appendString\<close> copies as they are.\<close>

definition htmlSafeSet :: "char \<Rightarrow> bool" where
  "htmlSafeSet b = (0x20 \<le> byte b \<and> byte b < 0x80
     \<and> b \<noteq> CHR 0x22 \<and> b \<noteq> CHR 0x5C \<and> b \<noteq> CHR ''<'' \<and> b \<noteq> CHR ''>'' \<and> b \<noteq> CHR ''&'')"

definition escape_byte :: "char \<Rightarrow> string" where
  "escape_byte b =
     (if b = CHR 0x5C \<or> b = CHR 0x22 then [CHR 0x5C, b]
      else if b = CHR 0x08 then [CHR 0x5C, CHR ''b'']
      else if b = CHR 0x0C then [CHR 0x5C, CHR ''f'']
      else if b = CHR 0x0A then [CHR 0x5C, CHR ''n'']
      else if b = CHR 0x0D then [CHR 0x5C, CHR ''r'']
      else if b = CHR 0x09 then [CHR 0x5C, CHR ''t'']
      else [CHR 0x5C, CHR ''u'', CHR ''0'', CHR ''0'', hex (byte b div 16), hex (byte b mod 16)])"

function appendString_loop :: "string \<Rightarrow> string" where
  "appendString_loop [] = []"
| "appendString_loop (b # src) =
     (if byte b < RuneSelf then
        (if htmlSafeSet b then b # appendString_loop src
         else escape_byte b @ appendString_loop src)
      else
        (case DecodeRuneInString (take UTFMax (b # src)) of
           (c, sz) \<Rightarrow>
             if c = RuneError \<and> sz = 1 then
               [CHR 0x5C, CHR ''u'', CHR ''f'', CHR ''f'', CHR ''f'', CHR ''d'']
                 @ appendString_loop (drop sz (b # src))
             else if c = 0x2028 \<or> c = 0x2029 then
               [CHR 0x5C, CHR ''u'', CHR ''2'', CHR ''0'', CHR ''2'', hex (c mod 16)]
                 @ appendString_loop (drop sz (b # src))
             else take sz (b # src) @ appendString_loop (drop sz (b # src))))"
  by pat_completeness auto
termination
  by (relation "measure length") (auto dest: DecodeRuneInString_take_less)

definition appendString :: "string \<Rightarrow> string \<Rightarrow> string" where
  "appendString dst src = dst @ [CHR 0x22] @ appendString_loop src @ [CHR 0x22]"

subsection \<open>Package strconv: Unquote\<close>

datatype strconv_error = ErrSyntax

definition unhex :: "char \<Rightarrow> nat option" where
  "unhex c =
     (if byte CHR ''0'' \<le> byte c \<and> byte c \<le> byte CHR ''9'' then Some (byte c - byte CHR ''0'')
      else if byte CHR ''a'' \<le> byte c \<and> byte c \<le> byte CHR ''f'' then Some (byte c - byte CHR ''a'' + 10)
      else if byte CHR ''A'' \<le> byte c \<and> byte c \<le> byte CHR ''F'' then Some (byte c - byte CHR ''A'' + 10)
      else None)"

text \<open>The loops \<open>v = v<<4 | x\<close> and \<open>v = (v<<3) | x\<close> of \<open>UnquoteChar\<close>.\<close>

fun hex_digits :: "string \<Rightarrow> nat \<Rightarrow> nat option" where
  "hex_digits [] v = Some v"
| "hex_digits (c # s) v = (case unhex c of None \<Rightarrow> None | Some x \<Rightarrow> hex_digits s (v * 16 + x))"

fun octal_digits :: "string \<Rightarrow> nat \<Rightarrow> nat option" where
  "octal_digits [] v = Some v"
| "octal_digits (c # s) v =
     (if byte c < byte CHR ''0'' \<or> byte c > byte CHR ''7'' then None
      else octal_digits s (v * 8 + (byte c - byte CHR ''0'')))"

text \<open>
  \<open>UnquoteChar(s, quote)\<close> gives the value, whether it is a multibyte rune, and the tail;
  \<open>None\<close> is \<open>ErrSyntax\<close>.
\<close>

definition UnquoteChar :: "string \<Rightarrow> char \<Rightarrow> (rune \<times> bool \<times> string) option" where
  "UnquoteChar s quote =
     (case s of
        [] \<Rightarrow> None
      | c # s1 \<Rightarrow>
          if c = quote \<and> (quote = CHR 0x27 \<or> quote = CHR 0x22) then None
          else if byte c \<ge> RuneSelf then
            (case DecodeRuneInString s of (r, sz) \<Rightarrow> Some (r, True, drop sz s))
          else if c \<noteq> CHR 0x5C then Some (byte c, False, s1)
          else
            (case s1 of
               [] \<Rightarrow> None
             | c # s \<Rightarrow>
                 if c = CHR ''a'' then Some (0x07, False, s)
                 else if c = CHR ''b'' then Some (0x08, False, s)
                 else if c = CHR ''f'' then Some (0x0C, False, s)
                 else if c = CHR ''n'' then Some (0x0A, False, s)
                 else if c = CHR ''r'' then Some (0x0D, False, s)
                 else if c = CHR ''t'' then Some (0x09, False, s)
                 else if c = CHR ''v'' then Some (0x0B, False, s)
                 else if c = CHR ''x'' \<or> c = CHR ''u'' \<or> c = CHR ''U'' then
                   (let n = (if c = CHR ''x'' then 2 else if c = CHR ''u'' then 4 else 8) in
                    if length s < n then None
                    else
                      (case hex_digits (take n s) 0 of
                         None \<Rightarrow> None
                       | Some v \<Rightarrow>
                           if c = CHR ''x'' then Some (v, False, drop n s)
                           else if \<not> ValidRune v then None
                           else Some (v, True, drop n s)))
                 else if byte CHR ''0'' \<le> byte c \<and> byte c \<le> byte CHR ''7'' then
                   (if length s < 2 then None
                    else
                      (case octal_digits (take 2 s) (byte c - byte CHR ''0'') of
                         None \<Rightarrow> None
                       | Some v \<Rightarrow> if v > 255 then None else Some (v, False, drop 2 s)))
                 else if c = CHR 0x5C then Some (0x5C, False, s)
                 else if c = CHR 0x27 \<or> c = CHR 0x22 then
                   (if c \<noteq> quote then None else Some (byte c, False, s))
                 else None))"

lemma UnquoteChar_shorter:
  "UnquoteChar s quote = Some (r, m, rem) \<Longrightarrow> length rem < length s"
  unfolding UnquoteChar_def
  by (auto simp: Let_def split: list.splits if_splits option.splits prod.splits
           dest: DecodeRuneInString_Cons_less [OF sym])

text \<open>
  The loop of \<open>unquote\<close> over a quoted text with escapes: \<open>in\<close> is the text after the
  opening quote, \<open>buf\<close> the bytes decoded so far. It stops at the closing quote or at the
  end of the text and gives the buffer and the rest; \<open>None\<close> is \<open>ErrSyntax\<close>.
\<close>

function unquote_loop :: "char \<Rightarrow> string \<Rightarrow> string \<Rightarrow> (string \<times> string) option" where
  "unquote_loop quote [] buf = Some (buf, [])"
| "unquote_loop quote (c # inp) buf =
     (if c \<noteq> quote then
        (case UnquoteChar (c # inp) quote of
           None \<Rightarrow> None
         | Some (r, multibyte, rem) \<Rightarrow>
             if c = CHR 0x0A then None
             else
               (let buf' = (if r < RuneSelf \<or> \<not> multibyte then buf @ [char_of r]
                            else AppendRune buf r)
                in if quote = CHR 0x27 then Some (buf', rem)
                   else unquote_loop quote rem buf'))
      else Some (buf, c # inp))"
  by pat_completeness auto
termination
  by (relation "measure (\<lambda>(quote, inp, buf). length inp)") (auto dest: UnquoteChar_shorter)

text \<open>\<open>index(s, c)\<close>: the position of the first \<open>c\<close>, if there is one.\<close>

definition index :: "string \<Rightarrow> char \<Rightarrow> nat option" where
  "index s c = (if c \<in> set s then Some (length (takeWhile (\<lambda>x. x \<noteq> c) s)) else None)"

text \<open>\<open>unquote(in, true)\<close>: the unquoted text, the remainder and the error.\<close>

definition unquote :: "string \<Rightarrow> string \<times> string \<times> strconv_error option" where
  "unquote inp =
     (if length inp < 2 then ([], inp, Some ErrSyntax)
      else
        (let quote = hd inp in
         case index (tl inp) quote of
           None \<Rightarrow> ([], inp, Some ErrSyntax)
         | Some e \<Rightarrow>
             (let end = e + 2; body = take (end - 2) (drop 1 inp) in
              if quote = CHR 0x60 then
                (if CHR 0x0D \<notin> set (take end inp) then (body, drop end inp, None)
                 else (filter (\<lambda>c. c \<noteq> CHR 0x0D) body, drop end inp, None))
              else if quote = CHR 0x22 \<or> quote = CHR 0x27 then
                (if CHR 0x5C \<notin> set (take end inp) \<and> CHR 0x0A \<notin> set (take end inp)
                    \<and> (if quote = CHR 0x22 then ValidString body
                        else (case DecodeRuneInString body of
                                (r, n) \<Rightarrow> 1 + n + 1 = end \<and> (r \<noteq> RuneError \<or> n \<noteq> 1)))
                 then (body, drop end inp, None)
                 else
                   (case unquote_loop quote (tl inp) [] of
                      None \<Rightarrow> ([], inp, Some ErrSyntax)
                    | Some (buf, inp') \<Rightarrow>
                        if \<not> (length inp' > 0 \<and> hd inp' = quote) then ([], inp, Some ErrSyntax)
                        else (buf, tl inp', None)))
              else ([], inp, Some ErrSyntax))))"

definition Unquote :: "string \<Rightarrow> string \<times> strconv_error option" where
  "Unquote s =
     (case unquote s of
        (out, rem, err) \<Rightarrow> if length rem > 0 then ([], Some ErrSyntax) else (out, err))"

subsection \<open>Package encoding/json on values\<close>

text \<open>
  \<open>json.Marshal\<close> writes a string after replacing every invalid byte by U+FFFD.
\<close>

function coerce_utf8 :: "string \<Rightarrow> string" where
  "coerce_utf8 [] = []"
| "coerce_utf8 (c # s) =
     (case DecodeRuneInString (c # s) of
        (r, sz) \<Rightarrow> AppendRune [] r @ coerce_utf8 (drop sz (c # s)))"
  by pat_completeness auto
termination
  by (relation "measure length") (auto dest: DecodeRuneInString_Cons_less)

text \<open>
  The values that reach \<open>json.Marshal\<close>. A number is the \<open>float64\<close> that the decoder
  gives back for it, of type \<open>'n\<close>, and its text is that of the parameter \<open>formatFloat\<close>.
  \<open>GoSlice\<close> is a slice that is not nil, or an array.
  \<open>GoNil\<close> is a nil pointer, interface, map or slice; \<open>GoPointer\<close> and \<open>GoInterface\<close> are a
  pointer and an interface that are not nil, with the value they hold. A struct, without
  embedded fields, is the list of its exported fields in the order of their declaration: the
  name of the field in the document, whether that name comes from the tag of the field, the
  \<open>omitempty\<close> option and the value. \<open>GoChan\<close> stands for the values that have no encoding.
\<close>

datatype 'n go_value =
    GoNil
  | GoBool bool
  | GoNumber 'n
  | GoString string
  | GoSlice "'n go_value list"
  | GoMap "(string \<times> 'n go_value) list"
  | GoStruct "(string \<times> bool \<times> bool \<times> 'n go_value) list"
  | GoPointer "'n go_value"
  | GoInterface "'n go_value"
  | GoChan

datatype Kind = Invalid | Bool | Float64 | String | Slice | Array | Map | Struct | Pointer | Chan

text \<open>The kind of \<open>reflect.ValueOf(v)\<close>, which looks into an interface.\<close>

fun Kind_of :: "'n go_value \<Rightarrow> Kind" where
  "Kind_of GoNil = Invalid"
| "Kind_of (GoBool b) = Bool"
| "Kind_of (GoNumber n) = Float64"
| "Kind_of (GoString s) = String"
| "Kind_of (GoSlice xs) = Slice"
| "Kind_of (GoMap kvs) = Map"
| "Kind_of (GoStruct fs) = Struct"
| "Kind_of (GoPointer v) = Pointer"
| "Kind_of (GoInterface v) = Kind_of v"
| "Kind_of GoChan = Chan"

text \<open>
  A document is kept as the tree of its values; \<open>document_text\<close> below is its text. The
  members of an object are in the order of the text, with the duplicates.
\<close>

datatype 'n json =
    JNull
  | JBool bool
  | JNumber 'n
  | JString string
  | JArray "'n json list"
  | JObject "(string \<times> 'n json) list"

datatype json_error = SyntaxError | UnmarshalTypeError | UnsupportedTypeError

fun isEmptyValue :: "('n::zero) go_value \<Rightarrow> bool" where
  "isEmptyValue (GoSlice xs) = (length xs = 0)"
| "isEmptyValue (GoMap kvs) = (length kvs = 0)"
| "isEmptyValue (GoString s) = (length s = 0)"
| "isEmptyValue (GoBool b) = (\<not> b)"
| "isEmptyValue (GoNumber n) = (n = 0)"
| "isEmptyValue GoNil = True"
| "isEmptyValue (GoStruct fs) = False"
| "isEmptyValue (GoPointer v) = False"
| "isEmptyValue (GoInterface v) = False"
| "isEmptyValue GoChan = False"

fun collect :: "('e + 'a) list \<Rightarrow> 'e + 'a list" where
  "collect [] = Inr []"
| "collect (Inl e # rs) = Inl e"
| "collect (Inr x # rs) = (case collect rs of Inl e \<Rightarrow> Inl e | Inr xs \<Rightarrow> Inr (x # xs))"

text \<open>
  The fields of a struct that the encoder visits (\<open>typeFields\<close>). Without embedded fields
  all fields are at one depth. Among the fields of one name, those whose name comes from a
  tag go first (\<open>by_tag\<close>, the order of the sort); the first one is taken, unless the second
  one has a name of the same origin: then no field of that name is taken (\<open>dominantField\<close>).
  The fields taken are visited in the order of their declaration.
\<close>

definition by_tag :: "(string \<times> bool \<times> 'a) list \<Rightarrow> (string \<times> bool \<times> 'a) list" where
  "by_tag fields = filter (\<lambda>f. fst (snd f)) fields @ filter (\<lambda>f. \<not> fst (snd f)) fields"

fun dominantField :: "(string \<times> bool \<times> 'a) list \<Rightarrow> (string \<times> bool \<times> 'a) option" where
  "dominantField [] = None"
| "dominantField [f] = Some f"
| "dominantField (f # g # fields) = (if fst (snd f) = fst (snd g) then None else Some f)"

definition typeFields :: "(string \<times> bool \<times> 'a) list \<Rightarrow> (string \<times> bool \<times> 'a) list" where
  "typeFields fs =
     filter (\<lambda>f. dominantField (by_tag (filter (\<lambda>g. fst g = fst f) fs)) = Some f) fs"

lemma set_typeFields: "set (typeFields fs) \<subseteq> set fs"
  by (simp add: typeFields_def)

text \<open>
  \<open>json.Marshal\<close>: the keys of a map are sorted, a field with \<open>omitempty\<close> and an empty
  value is left out, a pointer and an interface are written as the value they hold, and a
  value without encoding is an error.
\<close>

function json_Marshal :: "('n::zero) go_value \<Rightarrow> json_error + 'n json" where
  "json_Marshal GoNil = Inr JNull"
| "json_Marshal (GoBool b) = Inr (JBool b)"
| "json_Marshal (GoNumber n) = Inr (JNumber n)"
| "json_Marshal (GoString s) = Inr (JString (coerce_utf8 s))"
| "json_Marshal (GoSlice xs) =
     (case collect (map json_Marshal xs) of Inl e \<Rightarrow> Inl e | Inr js \<Rightarrow> Inr (JArray js))"
| "json_Marshal (GoMap kvs) =
     (case collect (map (\<lambda>(k, v). case json_Marshal v of Inl e \<Rightarrow> Inl e | Inr j \<Rightarrow> Inr (k, j))
                        (sort_key fst kvs)) of
        Inl e \<Rightarrow> Inl e
      | Inr ms \<Rightarrow> Inr (JObject (map (\<lambda>(k, j). (coerce_utf8 k, j)) ms)))"
| "json_Marshal (GoStruct fs) =
     (case collect (map (\<lambda>(name, tagged, omitEmpty, fv).
                          case json_Marshal fv of Inl e \<Rightarrow> Inl e | Inr j \<Rightarrow> Inr (name, j))
                        (filter (\<lambda>(name, tagged, omitEmpty, fv). \<not> (omitEmpty \<and> isEmptyValue fv))
                           (typeFields fs))) of
        Inl e \<Rightarrow> Inl e
      | Inr ms \<Rightarrow> Inr (JObject (map (\<lambda>(k, j). (coerce_utf8 k, j)) ms)))"
| "json_Marshal (GoPointer v) = json_Marshal v"
| "json_Marshal (GoInterface v) = json_Marshal v"
| "json_Marshal GoChan = Inl UnsupportedTypeError"
  by pat_completeness auto
termination
proof (relation "measure size")
  fix fs :: "(string \<times> bool \<times> bool \<times> ('n::zero) go_value) list" and x name p tagged q omitEmpty fv
  assume "x \<in> set (filter (\<lambda>(name, tagged, omitEmpty, fv). \<not> (omitEmpty \<and> isEmptyValue fv))
                      (typeFields fs))"
    and "(name, p) = x" and "(tagged, q) = p" and "(omitEmpty, fv) = q"
  then have "(name, tagged, omitEmpty, fv) \<in> set fs"
    using set_typeFields [of fs] by auto
  then have "size fv
      \<le> size_list (size_prod (\<lambda>x. 0) (size_prod (\<lambda>x. 0) (size_prod (\<lambda>x. 0) size))) fs"
    by (intro size_list_estimation' [where x = "(name, tagged, omitEmpty, fv)"]) simp_all
  then show "(fv, GoStruct fs) \<in> measure size" by simp
qed (auto simp: less_Suc_eq_le intro: size_list_estimation')

text \<open>The document as text.\<close>

fun document_text :: "('n \<Rightarrow> string) \<Rightarrow> 'n json \<Rightarrow> string" where
  "document_text formatFloat JNull = ''null''"
| "document_text formatFloat (JBool b) = (if b then ''true'' else ''false'')"
| "document_text formatFloat (JNumber n) = formatFloat n"
| "document_text formatFloat (JString s) = appendString [] s"
| "document_text formatFloat (JArray js) =
     ''['' @ Join (map (document_text formatFloat) js) '','' @ '']''"
| "document_text formatFloat (JObject ms) =
     ''{'' @ Join (map (\<lambda>(k, j). appendString [] k @ '':'' @ document_text formatFloat j) ms) '',''
       @ ''}''"

fun depth :: "'n json \<Rightarrow> nat" where
  "depth (JArray js) = Suc (foldr max (map depth js) 0)"
| "depth (JObject ms) = Suc (foldr max (map (\<lambda>(k, j). depth j) ms) 0)"
| "depth j = 0"

definition maxNestingDepth :: nat where "maxNestingDepth = 10000"

text \<open>
  \<open>json.Unmarshal\<close> into a \<open>map[string]interface{}\<close>: an object becomes a map, where a later
  member replaces an earlier one of the same name; \<open>null\<close> leaves the nil map; any other
  document is a type error. \<open>None\<close> is the empty input left by a failed \<open>json.Marshal\<close>.
\<close>

fun valueInterface :: "'n json \<Rightarrow> 'n go_value" where
  "valueInterface JNull = GoNil"
| "valueInterface (JBool b) = GoBool b"
| "valueInterface (JNumber n) = GoNumber n"
| "valueInterface (JString s) = GoString s"
| "valueInterface (JArray js) = GoSlice (map valueInterface js)"
| "valueInterface (JObject ms) =
     GoMap (foldl (\<lambda>m (key, j). AList.update key j m) []
              (map (\<lambda>(key, j). (key, valueInterface j)) ms))"

definition json_Unmarshal_map ::
  "'n json option \<Rightarrow> (string \<times> 'n go_value) list \<times> json_error option" where
  "json_Unmarshal_map data =
     (case data of
        None \<Rightarrow> ([], Some SyntaxError)
      | Some doc \<Rightarrow>
          if depth doc > maxNestingDepth then ([], Some SyntaxError)
          else
            (case valueInterface doc of
               GoNil \<Rightarrow> ([], None)
             | GoMap m \<Rightarrow> (m, None)
             | _ \<Rightarrow> ([], Some UnmarshalTypeError)))"

subsection \<open>fmt and url.Values\<close>

fun decimal :: "nat \<Rightarrow> string" where
  "decimal n = (if n < 10 then [char_of (48 + n)] else decimal (n div 10) @ [char_of (48 + n mod 10)])"

declare decimal.simps [simp del]

text \<open>\<open>fmt.Sprintf("%s[%d]", s, d)\<close>.\<close>

definition Sprintf_index :: "string \<Rightarrow> nat \<Rightarrow> string" where
  "Sprintf_index s d = s @ ''['' @ decimal d @ '']''"

type_synonym Values = "string \<rightharpoonup> string list"

definition Add :: "Values \<Rightarrow> string \<Rightarrow> string \<Rightarrow> Values" where
  "Add v key val = v(key \<mapsto> (case v key of None \<Rightarrow> [] | Some vs \<Rightarrow> vs) @ [val])"

subsection \<open>encodeParamValue and StructToParams\<close>

definition encodeParamValue ::
  "('n \<Rightarrow> string) \<Rightarrow> ('n::zero) go_value \<Rightarrow> string \<times> json_error option" where
  "encodeParamValue formatFloat v =
     (case json_Marshal v of
        Inl err \<Rightarrow> ([], Some err)
      | Inr resBytes \<Rightarrow>
          (let res = document_text formatFloat resBytes in
           if HasPrefix res [CHR 0x22] then (fst (Unquote res), None) else (res, None)))"

fun Len :: "'n go_value \<Rightarrow> nat" where
  "Len (GoSlice xs) = length xs"
| "Len (GoMap kvs) = length kvs"
| "Len (GoString s) = length s"
| "Len (GoInterface v) = Len v"
| "Len v = 0"

fun Index :: "'n go_value \<Rightarrow> nat \<Rightarrow> 'n go_value" where
  "Index (GoSlice xs) i = xs ! i"
| "Index (GoInterface v) i = Index v i"
| "Index v i = GoNil"

function array_loop ::
  "('n \<Rightarrow> string) \<Rightarrow> string \<Rightarrow> ('n::zero) go_value \<Rightarrow> nat \<Rightarrow> Values \<Rightarrow> json_error + Values" where
  "array_loop formatFloat paramName rVal i params =
     (if i < Len rVal then
        (let item = Index rVal i in
         case encodeParamValue formatFloat item of
           (val, Some err) \<Rightarrow> Inl err
         | (val, None) \<Rightarrow>
             (let arrParamName = Sprintf_index paramName i in
              array_loop formatFloat paramName rVal (i + 1) (Add params arrParamName val)))
      else Inr params)"
  by pat_completeness auto
termination
  by (relation "measure (\<lambda>(f, p, rVal, i, params). Len rVal - i)") auto

declare array_loop.simps [simp del]

fun params_loop ::
  "('n \<Rightarrow> string) \<Rightarrow> (string \<times> ('n::zero) go_value) list \<Rightarrow> Values \<Rightarrow> json_error + Values" where
  "params_loop formatFloat [] params = Inr params"
| "params_loop formatFloat ((paramName, v) # rest) params =
     (let kind = Kind_of v in
      if kind = Slice \<or> kind = Array then
        (case array_loop formatFloat paramName v 0 params of
           Inl err \<Rightarrow> Inl err
         | Inr params' \<Rightarrow> params_loop formatFloat rest params')
      else
        (case encodeParamValue formatFloat v of
           (val, Some err) \<Rightarrow> Inl err
         | (val, None) \<Rightarrow> params_loop formatFloat rest (Add params paramName val)))"

text \<open>
  \<open>range_order\<close> is the order in which the \<open>range\<close> statement visits the entries of the map,
  which the language leaves open.
\<close>

definition StructToParams ::
  "('n \<Rightarrow> string) \<Rightarrow> ((string \<times> 'n go_value) list \<Rightarrow> (string \<times> 'n go_value) list)
     \<Rightarrow> ('n::zero) go_value \<Rightarrow> Values option \<times> json_error option" where
  "StructToParams formatFloat range_order inputStruct =
     (let paramsJSONObj = (case json_Marshal inputStruct of Inl _ \<Rightarrow> None | Inr doc \<Rightarrow> Some doc) in
      case json_Unmarshal_map paramsJSONObj of
        (paramsMap, Some err) \<Rightarrow> (None, Some err)
      | (paramsMap, None) \<Rightarrow>
          (case params_loop formatFloat (range_order paramsMap) Map.empty of
             Inl err \<Rightarrow> (None, Some err)
           | Inr params \<Rightarrow> (Some params, None)))"

text \<open>What one entry of the mapping adds to the parameters, and whether its values encode.\<close>

definition emitted :: "('n \<Rightarrow> string) \<Rightarrow> string \<times> ('n::zero) go_value \<Rightarrow> (string \<times> string) list" where
  "emitted formatFloat e =
     (case e of (paramName, v) \<Rightarrow>
        if Kind_of v = Slice \<or> Kind_of v = Array
        then map (\<lambda>i. (Sprintf_index paramName i, fst (encodeParamValue formatFloat (Index v i))))
               [0..<Len v]
        else [(paramName, fst (encodeParamValue formatFloat v))])"

definition encodes :: "('n \<Rightarrow> string) \<Rightarrow> string \<times> ('n::zero) go_value \<Rightarrow> bool" where
  "encodes formatFloat e =
     (case e of (paramName, v) \<Rightarrow>
        if Kind_of v = Slice \<or> Kind_of v = Array
        then list_all (\<lambda>i. snd (encodeParamValue formatFloat (Index v i)) = None) [0..<Len v]
        else snd (encodeParamValue formatFloat v) = None)"

definition add_all :: "Values \<Rightarrow> (string \<times> string) list \<Rightarrow> Values" where
  "add_all params kvs = foldl (\<lambda>p (k, v). Add p k v) params kvs"

definition values_of :: "(string \<times> string) list \<Rightarrow> string \<Rightarrow> string list" where
  "values_of kvs key = map snd (filter (\<lambda>kv. fst kv = key) kvs)"

text \<open>The generic mapping of the input: the two calls at the head of \<open>StructToParams\<close>.\<close>

definition generic_mapping ::
  "('n::zero) go_value \<Rightarrow> (string \<times> 'n go_value) list \<times> json_error option" where
  "generic_mapping inputStruct =
     json_Unmarshal_map (case json_Marshal inputStruct of Inl _ \<Rightarrow> None | Inr doc \<Rightarrow> Some doc)"

text \<open>The fields of a struct that \<open>json.Marshal\<close> writes.\<close>

definition visited ::
  "(string \<times> bool \<times> bool \<times> ('n::zero) go_value) list \<Rightarrow> (string \<times> bool \<times> bool \<times> 'n go_value) list" where
  "visited fs =
     filter (\<lambda>(name, tagged, omitEmpty, fv). \<not> (omitEmpty \<and> isEmptyValue fv)) (typeFields fs)"

text \<open>
  The value that the decoder gives back for a value: what \<open>json.Unmarshal\<close> into an
  \<open>interface{}\<close> makes of the document that \<open>json.Marshal\<close> writes for it.
\<close>

definition generic :: "('n::zero) go_value \<Rightarrow> 'n go_value" where
  "generic v = (case json_Marshal v of Inl e \<Rightarrow> GoNil | Inr j \<Rightarrow> valueInterface j)"

text \<open>
  The zero value of a type, as the language defines it: false, 0, the empty string, nil for a
  pointer, an interface, a map and a slice, and a struct whose fields are all zero.
\<close>

fun zero_value :: "('n::zero) go_value \<Rightarrow> bool" where
  "zero_value GoNil = True"
| "zero_value (GoBool b) = (\<not> b)"
| "zero_value (GoNumber n) = (n = 0)"
| "zero_value (GoString s) = (s = [])"
| "zero_value (GoStruct fs) = list_all (\<lambda>f. zero_value (snd (snd (snd f)))) fs"
| "zero_value v = False"

subsection \<open>Response metadata\<close>

text \<open>
  \<open>http.Header\<close> is a map from names to value lists. A nil byte slice and an empty one both
  have length 0 and are the empty list here.
\<close>

type_synonym Header = "string \<rightharpoonup> string list"

record ResponseMetaData =
  Header :: Header
  StatusCode :: int
  Body :: string

text \<open>\<open>Response\<close> embeds \<open>ResponseMetaData\<close>; \<open>SetMeta\<close> assigns it.\<close>

record Response =
  ResponseMetaData :: ResponseMetaData

definition SetMeta :: "Response \<Rightarrow> ResponseMetaData \<Rightarrow> Response" where
  "SetMeta resp meta = resp\<lparr>ResponseMetaData := meta\<rparr>"

text \<open>
  The body of an \<open>http.Response\<close> is a reader: the bytes it delivers, and the error that
  ends the reading, if there is one. \<open>io.ReadAll\<close> returns both.
\<close>

datatype io_error = ReadError

datatype Reader = Reader string "io_error option"

fun ReadAll :: "Reader \<Rightarrow> string \<times> io_error option" where
  "ReadAll (Reader bytes err) = (bytes, err)"

record http_Response =
  resp_Header :: Header
  resp_StatusCode :: int
  resp_Body :: Reader

text \<open>
  \<open>SetResponseMeta(httpResp, respStruct)\<close>: \<open>httpResp\<close> is a pointer, \<open>None\<close> when nil;
  \<open>respStruct\<close> is any \<open>MetaSetter\<close>, given by its \<open>SetMeta\<close> method and its state before the
  call. The result is its state after the call.
\<close>

definition SetResponseMeta ::
  "http_Response option \<Rightarrow> ('s \<Rightarrow> ResponseMetaData \<Rightarrow> 's) \<Rightarrow> 's \<Rightarrow> 's" where
  "SetResponseMeta httpResp respStruct_SetMeta respStruct =
     (case httpResp of
        None \<Rightarrow> respStruct
      | Some r \<Rightarrow>
          (let meta = \<lparr>Header = resp_Header r, StatusCode = resp_StatusCode r, Body = []\<rparr>;
               meta = (case ReadAll (resp_Body r) of
                         (body, None) \<Rightarrow> meta\<lparr>Body := body\<rparr>
                       | (body, Some err) \<Rightarrow> meta)
           in respStruct_SetMeta respStruct meta))"

text \<open>A \<open>MetaSetter\<close> that only records the calls of its \<open>SetMeta\<close>.\<close>

definition record_SetMeta :: "ResponseMetaData list \<Rightarrow> ResponseMetaData \<Rightarrow> ResponseMetaData list" where
  "record_SetMeta calls meta = calls @ [meta]"

subsection \<open>Reading a JSON text\<close>

text \<open>
  The syntax of encoding/json is that of RFC 8259. A text is cut into tokens, string
  literals are unquoted as \<open>unquoteBytes\<close> does, and the tokens are read by a machine with
  a stack of open arrays and objects, as the scanner of the package is. Numbers are kept
  as their literals.
\<close>

datatype token =
    LBrace | RBrace | LBracket | RBracket | Colon | Comma
  | TString string | TNumber string | TTrue | TFalse | TNull

definition isSpace :: "char \<Rightarrow> bool" where
  "isSpace c = (c = CHR '' '' \<or> c = CHR 0x09 \<or> c = CHR 0x0D \<or> c = CHR 0x0A)"

definition isDigit :: "char \<Rightarrow> bool" where
  "isDigit c = (byte CHR ''0'' \<le> byte c \<and> byte c \<le> byte CHR ''9'')"

definition isHex :: "char \<Rightarrow> bool" where
  "isHex c = (unhex c \<noteq> None)"

text \<open>
  A string literal after its opening quote: the raw text up to the closing quote, and the
  rest. Control bytes and unknown escapes are syntax errors.
\<close>

fun scan_string :: "string \<Rightarrow> (string \<times> string) option" where
  "scan_string [] = None"
| "scan_string [c] = (if c = CHR 0x22 then Some ([], []) else None)"
| "scan_string (c # e # s) =
     (if c = CHR 0x22 then Some ([], e # s)
      else if c = CHR 0x5C then
        (if e \<in> set [CHR 0x22, CHR 0x5C, CHR ''/'', CHR ''b'', CHR ''f'', CHR ''n'', CHR ''r'', CHR ''t'']
         then map_option (\<lambda>(raw, rest). (c # e # raw, rest)) (scan_string s)
         else if e = CHR ''u'' \<and> length s \<ge> 4 \<and> list_all isHex (take 4 s)
         then map_option (\<lambda>(raw, rest). (c # e # raw, rest)) (scan_string s)
         else None)
      else if byte c < 0x20 then None
      else map_option (\<lambda>(raw, rest). (c # raw, rest)) (scan_string (e # s)))"

lemma scan_string_length: "scan_string s = Some (raw, rest) \<Longrightarrow> length rest < length s"
proof (induction s arbitrary: raw rule: scan_string.induct)
  case 1
  then show ?case by simp
next
  case (2 c)
  then show ?case by (simp split: if_splits)
next
  case (3 c e s)
  then show ?case by (fastforce split: if_splits)
qed

text \<open>\<open>getu4\<close>: the code unit of an escape \<open>\uXXXX\<close> at the head of the text.\<close>

definition getu4 :: "string \<Rightarrow> nat option" where
  "getu4 s =
     (case s of
        b # u # h1 # h2 # h3 # h4 # _ \<Rightarrow>
          if b = CHR 0x5C \<and> u = CHR ''u'' then hex_digits [h1, h2, h3, h4] 0 else None
      | _ \<Rightarrow> None)"

definition IsSurrogate :: "rune \<Rightarrow> bool" where
  "IsSurrogate r = (0xD800 \<le> r \<and> r < 0xE000)"

text \<open>\<open>utf16.DecodeRune\<close>, with \<open>None\<close> for the second unit when there is no escape there.\<close>

definition utf16_DecodeRune :: "rune \<Rightarrow> nat option \<Rightarrow> rune" where
  "utf16_DecodeRune r1 r2 =
     (case r2 of
        None \<Rightarrow> RuneError
      | Some r2 \<Rightarrow>
          if 0xD800 \<le> r1 \<and> r1 < 0xDC00 \<and> 0xDC00 \<le> r2 \<and> r2 < 0xE000
          then (r1 - 0xD800) * 0x400 + (r2 - 0xDC00) + 0x10000
          else RuneError)"

definition escape_value :: "char \<Rightarrow> char" where
  "escape_value e =
     (if e = CHR ''b'' then CHR 0x08 else if e = CHR ''f'' then CHR 0x0C
      else if e = CHR ''n'' then CHR 0x0A else if e = CHR ''r'' then CHR 0x0D
      else if e = CHR ''t'' then CHR 0x09 else e)"

function unquoteBytes :: "string \<Rightarrow> string" where
  "unquoteBytes [] = []"
| "unquoteBytes (c # s) =
     (if c = CHR 0x5C then
        (case getu4 (c # s) of
           Some rr \<Rightarrow>
             if IsSurrogate rr then
               (let dec = utf16_DecodeRune rr (getu4 (drop 5 s)) in
                if dec \<noteq> RuneError then AppendRune [] dec @ unquoteBytes (drop 11 s)
                else AppendRune [] RuneError @ unquoteBytes (drop 5 s))
             else AppendRune [] rr @ unquoteBytes (drop 5 s)
         | None \<Rightarrow>
             (case s of [] \<Rightarrow> [] | e # s' \<Rightarrow> escape_value e # unquoteBytes s'))
      else if byte c < RuneSelf then c # unquoteBytes s
      else
        (case DecodeRuneInString (c # s) of
           (rr, sz) \<Rightarrow> AppendRune [] rr @ unquoteBytes (drop sz (c # s))))"
  by pat_completeness auto
termination
  by (relation "measure length") (auto dest: DecodeRuneInString_Cons_less)

text \<open>
  A number literal at the head of the text: \<open>-? (0 | [1-9][0-9]*) (. [0-9]+)? ([eE] [+-]? [0-9]+)?\<close>.
  The result is the literal and the rest.
\<close>

definition scan_digits :: "string \<Rightarrow> (string \<times> string) option" where
  "scan_digits s =
     (if takeWhile isDigit s = [] then None else Some (takeWhile isDigit s, dropWhile isDigit s))"

definition scan_int :: "string \<Rightarrow> (string \<times> string) option" where
  "scan_int s =
     (case s of
        [] \<Rightarrow> None
      | c # s' \<Rightarrow> if c = CHR ''0'' then Some ([c], s') else scan_digits s)"

definition scan_frac :: "string \<Rightarrow> (string \<times> string) option" where
  "scan_frac s =
     (case s of
        [] \<Rightarrow> Some ([], [])
      | c # s' \<Rightarrow>
          if c = CHR ''.'' then map_option (\<lambda>(ds, rest). (c # ds, rest)) (scan_digits s')
          else Some ([], s))"

definition scan_exp :: "string \<Rightarrow> (string \<times> string) option" where
  "scan_exp s =
     (case s of
        [] \<Rightarrow> Some ([], [])
      | c # s' \<Rightarrow>
          if c = CHR ''e'' \<or> c = CHR ''E'' then
            (case s' of
               [] \<Rightarrow> None
             | g # s'' \<Rightarrow>
                 if g = CHR ''+'' \<or> g = CHR ''-''
                 then map_option (\<lambda>(ds, rest). (c # g # ds, rest)) (scan_digits s'')
                 else map_option (\<lambda>(ds, rest). (c # ds, rest)) (scan_digits s'))
          else Some ([], s))"

definition scan_number :: "string \<Rightarrow> (string \<times> string) option" where
  "scan_number s =
     (let (sign, s1) = (case s of [] \<Rightarrow> ([], []) | c # s' \<Rightarrow> if c = CHR ''-'' then ([c], s') else ([], s))
      in case scan_int s1 of
           None \<Rightarrow> None
         | Some (i, s2) \<Rightarrow>
             (case scan_frac s2 of
                None \<Rightarrow> None
              | Some (f, s3) \<Rightarrow>
                  (case scan_exp s3 of
                     None \<Rightarrow> None
                   | Some (e, s4) \<Rightarrow> Some (sign @ i @ f @ e, s4))))"

lemma scan_digits_length: "scan_digits s = Some (ds, rest) \<Longrightarrow> length rest < length s"
proof -
  assume a: "scan_digits s = Some (ds, rest)"
  then have ne: "takeWhile isDigit s \<noteq> []" and r: "rest = dropWhile isDigit s"
    by (auto simp: scan_digits_def split: if_splits)
  from ne have "0 < length (takeWhile isDigit s)" by simp
  moreover have "length (takeWhile isDigit s) + length (dropWhile isDigit s) = length s"
    by (metis length_append takeWhile_dropWhile_id)
  ultimately have "length (dropWhile isDigit s) < length s" by linarith
  then show ?thesis by (simp only: r)
qed

lemma scan_int_length: "scan_int s = Some (i, rest) \<Longrightarrow> length rest < length s"
  by (auto simp: scan_int_def split: list.splits if_splits dest: scan_digits_length)

lemma scan_frac_length: "scan_frac s = Some (f, rest) \<Longrightarrow> length rest \<le> length s"
  by (auto simp: scan_frac_def split: list.splits if_splits dest!: scan_digits_length)

lemma scan_exp_length: "scan_exp s = Some (e, rest) \<Longrightarrow> length rest \<le> length s"
  by (auto simp: scan_exp_def split: list.splits if_splits dest!: scan_digits_length)

lemma scan_number_length:
  assumes "scan_number s = Some (lit, rest)"
  shows "length rest < length s"
proof -
  obtain sign s1 where s1: "(case s of [] \<Rightarrow> ([], []) | c # s' \<Rightarrow> if c = CHR ''-'' then ([c], s') else ([], s)) = (sign, s1)"
    by (cases "(case s of [] \<Rightarrow> ([], []) | c # s' \<Rightarrow> if c = CHR ''-'' then ([c], s') else ([]::string, s))") simp
  then have l1: "length s1 \<le> length s" by (auto split: list.splits if_splits)
  from assms s1 obtain i s2 f s3 e where "scan_int s1 = Some (i, s2)" "scan_frac s2 = Some (f, s3)"
    "scan_exp s3 = Some (e, rest)"
    by (auto simp: scan_number_def split: option.splits)
  then have "length s2 < length s1" "length s3 \<le> length s2" "length rest \<le> length s3"
    by (auto dest: scan_int_length scan_frac_length scan_exp_length)
  with l1 show ?thesis by simp
qed

function lex :: "string \<Rightarrow> token list option" where
  "lex [] = Some []"
| "lex (c # s) =
     (if isSpace c then lex s
      else if c = CHR ''{'' then map_option ((#) LBrace) (lex s)
      else if c = CHR ''}'' then map_option ((#) RBrace) (lex s)
      else if c = CHR ''['' then map_option ((#) LBracket) (lex s)
      else if c = CHR '']'' then map_option ((#) RBracket) (lex s)
      else if c = CHR '':'' then map_option ((#) Colon) (lex s)
      else if c = CHR '','' then map_option ((#) Comma) (lex s)
      else if c = CHR 0x22 then
        (case scan_string s of
           None \<Rightarrow> None
         | Some (raw, rest) \<Rightarrow> map_option ((#) (TString (unquoteBytes raw))) (lex rest))
      else if c = CHR ''-'' \<or> isDigit c then
        (case scan_number (c # s) of
           None \<Rightarrow> None
         | Some (lit, rest) \<Rightarrow> map_option ((#) (TNumber lit)) (lex rest))
      else if c = CHR ''t'' \<and> take 3 s = ''rue'' then map_option ((#) TTrue) (lex (drop 3 s))
      else if c = CHR ''f'' \<and> take 4 s = ''alse'' then map_option ((#) TFalse) (lex (drop 4 s))
      else if c = CHR ''n'' \<and> take 3 s = ''ull'' then map_option ((#) TNull) (lex (drop 3 s))
      else None)"
  by pat_completeness auto
termination
proof (relation "measure length", goal_cases)
  case (9 c s x2 x y)
  then show ?case using scan_string_length [of s x y] by simp
next
  case (10 c s x2 x y)
  then show ?case using scan_number_length [of "c # s" x y] by simp
qed simp_all

text \<open>
  The machine that reads the tokens: what it expects next, and the stack of the arrays and
  objects that are open. A member whose value is being read is \<open>FMember\<close>.
\<close>

datatype expect =
    ExpectValue | ExpectValueOrEnd | ExpectKey | ExpectKeyOrEnd | ExpectColon string
  | AfterValue "string json"

datatype frame =
    FArray "string json list"
  | FObject "(string \<times> string json) list"
  | FMember "(string \<times> string json) list" string

definition begin_value :: "token \<Rightarrow> frame list \<Rightarrow> (expect \<times> frame list) option" where
  "begin_value t stack =
     (case t of
        LBracket \<Rightarrow> Some (ExpectValueOrEnd, FArray [] # stack)
      | LBrace \<Rightarrow> Some (ExpectKeyOrEnd, FObject [] # stack)
      | TString s \<Rightarrow> Some (AfterValue (JString s), stack)
      | TNumber n \<Rightarrow> Some (AfterValue (JNumber n), stack)
      | TTrue \<Rightarrow> Some (AfterValue (JBool True), stack)
      | TFalse \<Rightarrow> Some (AfterValue (JBool False), stack)
      | TNull \<Rightarrow> Some (AfterValue JNull, stack)
      | _ \<Rightarrow> None)"

definition step :: "expect \<times> frame list \<Rightarrow> token \<Rightarrow> (expect \<times> frame list) option" where
  "step st t =
     (case st of
        (ExpectValue, stack) \<Rightarrow> begin_value t stack
      | (ExpectValueOrEnd, stack) \<Rightarrow>
          (case (t, stack) of
             (RBracket, FArray vs # rest) \<Rightarrow> Some (AfterValue (JArray vs), rest)
           | _ \<Rightarrow> begin_value t stack)
      | (ExpectKey, stack) \<Rightarrow>
          (case t of TString k \<Rightarrow> Some (ExpectColon k, stack) | _ \<Rightarrow> None)
      | (ExpectKeyOrEnd, stack) \<Rightarrow>
          (case (t, stack) of
             (TString k, _) \<Rightarrow> Some (ExpectColon k, stack)
           | (RBrace, FObject ms # rest) \<Rightarrow> Some (AfterValue (JObject ms), rest)
           | _ \<Rightarrow> None)
      | (ExpectColon k, stack) \<Rightarrow>
          (case (t, stack) of
             (Colon, FObject ms # rest) \<Rightarrow> Some (ExpectValue, FMember ms k # rest)
           | _ \<Rightarrow> None)
      | (AfterValue v, stack) \<Rightarrow>
          (case (t, stack) of
             (Comma, FArray vs # rest) \<Rightarrow> Some (ExpectValue, FArray (vs @ [v]) # rest)
           | (RBracket, FArray vs # rest) \<Rightarrow> Some (AfterValue (JArray (vs @ [v])), rest)
           | (Comma, FMember ms k # rest) \<Rightarrow> Some (ExpectKey, FObject (ms @ [(k, v)]) # rest)
           | (RBrace, FMember ms k # rest) \<Rightarrow> Some (AfterValue (JObject (ms @ [(k, v)])), rest)
           | _ \<Rightarrow> None))"

fun run :: "expect \<times> frame list \<Rightarrow> token list \<Rightarrow> string json option" where
  "run st [] = (case st of (AfterValue v, []) \<Rightarrow> Some v | _ \<Rightarrow> None)"
| "run st (t # ts) = (case step st t of None \<Rightarrow> None | Some st' \<Rightarrow> run st' ts)"

text \<open>The document of a text; \<open>None\<close> is a syntax error.\<close>

definition json_parse :: "string \<Rightarrow> string json option" where
  "json_parse data =
     (case lex data of
        None \<Rightarrow> None
      | Some ts \<Rightarrow>
          (case run (ExpectValue, []) ts of
             None \<Rightarrow> None
           | Some doc \<Rightarrow> if depth doc > maxNestingDepth then None else Some doc))"

subsection \<open>ApiError and ParseError\<close>

record ApiError =
  Message :: string
  Reason :: string

text \<open>
  A key of an object goes to the field whose name it equals when case is folded. Folding
  makes ASCII letters upper case and takes the long s (U+017F) to S and the Kelvin sign
  (U+212A) to K; no other character folds to an ASCII letter.
\<close>

fun foldName :: "string \<Rightarrow> string" where
  "foldName [] = []"
| "foldName (c # s) =
     (if byte CHR ''a'' \<le> byte c \<and> byte c \<le> byte CHR ''z'' then char_of (byte c - 0x20) # foldName s
      else if take 2 (c # s) = [CHR 0xC5, CHR 0xBF] then CHR ''S'' # foldName (tl s)
      else if take 3 (c # s) = [CHR 0xE2, CHR 0x84, CHR 0xAA] then CHR ''K'' # foldName (tl (tl s))
      else c # foldName s)"

text \<open>
  Decoding one member into the struct: a string is stored, null leaves the field as it is,
  any other value is a type error; decoding goes on and the first error is the one
  returned.
\<close>

definition saveError :: "json_error option \<Rightarrow> json_error \<Rightarrow> json_error option" where
  "saveError saved err = (case saved of None \<Rightarrow> Some err | Some e \<Rightarrow> Some e)"

definition decode_member ::
  "ApiError \<times> json_error option \<Rightarrow> string \<times> string json \<Rightarrow> ApiError \<times> json_error option" where
  "decode_member st member =
     (case (st, member) of
        ((v, saved), (key, j)) \<Rightarrow>
          if foldName key = ''MESSAGE'' then
            (case j of
               JString s \<Rightarrow> (v\<lparr>Message := s\<rparr>, saved)
             | JNull \<Rightarrow> (v, saved)
             | _ \<Rightarrow> (v, saveError saved UnmarshalTypeError))
          else if foldName key = ''REASON'' then
            (case j of
               JString s \<Rightarrow> (v\<lparr>Reason := s\<rparr>, saved)
             | JNull \<Rightarrow> (v, saved)
             | _ \<Rightarrow> (v, saveError saved UnmarshalTypeError))
          else (v, saved))"

text \<open>\<open>json.Unmarshal(data, &v)\<close> for \<open>v\<close> an \<open>ApiError\<close>: the struct after the call and the error.\<close>

definition json_Unmarshal_ApiError :: "string \<Rightarrow> ApiError \<Rightarrow> ApiError \<times> json_error option" where
  "json_Unmarshal_ApiError data v =
     (case json_parse data of
        None \<Rightarrow> (v, Some SyntaxError)
      | Some JNull \<Rightarrow> (v, None)
      | Some (JObject ms) \<Rightarrow> foldl decode_member (v, None) ms
      | Some _ \<Rightarrow> (v, Some UnmarshalTypeError))"

text \<open>
  A Go \<open>error\<close> is nil (\<open>None\<close>), an error of encoding/json, or an \<open>ApiError\<close>, whose
  \<open>Error\<close> method gives its message.
\<close>

datatype error = JSONError json_error | ApiErr ApiError

definition ApiError_Error :: "ApiError \<Rightarrow> string" where
  "ApiError_Error err = Message err"

definition ParseError :: "string \<Rightarrow> error option" where
  "ParseError body =
     (let ikError = \<lparr>Message = [], Reason = []\<rparr> in
      case json_Unmarshal_ApiError body ikError of
        (ikError, Some err) \<Rightarrow> Some (JSONError err)
      | (ikError, None) \<Rightarrow> Some (ApiErr ikError))"

subsection \<open>Package net/url: Parse\<close>

text \<open>
  \<open>url.Parse\<close> as far as \<open>IsValidURL\<close> depends on it: whether it returns an error, and the
  scheme of the URL it returns. The record \<open>URL\<close> has the fields that are set without
  unescaping; user, host, path and fragment are left out. The rules of the package for the
  authority of a URL (user information, port, IP literals, escapes in the host) are the
  parameter \<open>authority_rules\<close>; an authority made of letters, digits and \<open>- . _ ~\<close> only
  passes all of them, and is accepted without asking the parameter.
\<close>

datatype url_error =
    InvalidControlCharacter | MissingProtocolScheme | FirstSegmentColon | InvalidAuthority
  | EscapeError

record URL =
  Scheme :: string
  Opaque :: string
  RawQuery :: string
  ForceQuery :: bool
  OmitHost :: bool

definition isLetter :: "char \<Rightarrow> bool" where
  "isLetter c = (byte CHR ''a'' \<le> byte c \<and> byte c \<le> byte CHR ''z''
                 \<or> byte CHR ''A'' \<le> byte c \<and> byte c \<le> byte CHR ''Z'')"

text \<open>\<open>strings.Cut(s, sep)\<close> for a separator of one byte: before, after, found.\<close>

definition Cut :: "string \<Rightarrow> char \<Rightarrow> string \<times> string \<times> bool" where
  "Cut s sep =
     (if sep \<in> set s
      then (takeWhile (\<lambda>c. c \<noteq> sep) s, tl (dropWhile (\<lambda>c. c \<noteq> sep) s), True)
      else (s, [], False))"

definition ToLower :: "string \<Rightarrow> string" where
  "ToLower s =
     map (\<lambda>c. if byte CHR ''A'' \<le> byte c \<and> byte c \<le> byte CHR ''Z'' then char_of (byte c + 0x20) else c) s"

definition stringContainsCTLByte :: "string \<Rightarrow> bool" where
  "stringContainsCTLByte s = (\<exists>b \<in> set s. byte b < byte CHR '' '' \<or> byte b = 0x7F)"

text \<open>The bytes of a scheme.\<close>

definition scheme_char :: "char \<Rightarrow> bool" where
  "scheme_char c = (isLetter c \<or> isDigit c \<or> c = CHR ''+'' \<or> c = CHR ''-'' \<or> c = CHR ''.'')"

text \<open>
  \<open>getScheme\<close>: the loop over the bytes of \<open>rawURL\<close>, here over the bytes from index \<open>i\<close>
  on. \<open>None\<close> is the error "missing protocol scheme".
\<close>

fun getScheme_loop :: "string \<Rightarrow> nat \<Rightarrow> string \<Rightarrow> (string \<times> string) option" where
  "getScheme_loop rawURL i [] = Some ([], rawURL)"
| "getScheme_loop rawURL i (c # cs) =
     (if isLetter c then getScheme_loop rawURL (i + 1) cs
      else if isDigit c \<or> c = CHR ''+'' \<or> c = CHR ''-'' \<or> c = CHR ''.'' then
        (if i = 0 then Some ([], rawURL) else getScheme_loop rawURL (i + 1) cs)
      else if c = CHR '':'' then
        (if i = 0 then None else Some (take i rawURL, drop (i + 1) rawURL))
      else Some ([], rawURL))"

definition getScheme :: "string \<Rightarrow> (string \<times> string) option" where
  "getScheme rawURL = getScheme_loop rawURL 0 rawURL"

text \<open>
  \<open>unescape\<close> in the modes of a path and of a fragment fails exactly when a \<open>%\<close> is not
  followed by two hexadecimal digits.
\<close>

fun valid_escapes :: "string \<Rightarrow> bool" where
  "valid_escapes [] = True"
| "valid_escapes (c # s) =
     (if c = CHR ''%'' then
        (case s of
           h1 # h2 # s' \<Rightarrow> isHex h1 \<and> isHex h2 \<and> valid_escapes s'
         | _ \<Rightarrow> False)
      else valid_escapes s)"

definition unreserved :: "char \<Rightarrow> bool" where
  "unreserved c = (isLetter c \<or> isDigit c \<or> c = CHR ''-'' \<or> c = CHR ''.'' \<or> c = CHR ''_'' \<or> c = CHR ''~'')"

definition parseAuthority_ok :: "(string \<Rightarrow> bool) \<Rightarrow> string \<Rightarrow> bool" where
  "parseAuthority_ok authority_rules authority =
     (if list_all unreserved authority then True else authority_rules authority)"

definition parse :: "(string \<Rightarrow> bool) \<Rightarrow> string \<Rightarrow> url_error + URL" where
  "parse authority_rules rawURL =
     (if stringContainsCTLByte rawURL then Inl InvalidControlCharacter
      else if rawURL = ''*'' then
        Inr \<lparr>Scheme = [], Opaque = [], RawQuery = [], ForceQuery = False, OmitHost = False\<rparr>
      else
        (case getScheme rawURL of
           None \<Rightarrow> Inl MissingProtocolScheme
         | Some (scheme, rest) \<Rightarrow>
             (let scheme = ToLower scheme;
                  force = (rest \<noteq> [] \<and> last rest = CHR ''?'' \<and> count_list rest (CHR ''?'') = 1);
                  rawQuery = (if force then [] else fst (snd (Cut rest (CHR ''?''))));
                  rest = (if force then butlast rest else fst (Cut rest (CHR ''?'')));
                  url = \<lparr>Scheme = scheme, Opaque = [], RawQuery = rawQuery, ForceQuery = force,
                         OmitHost = False\<rparr>
              in if \<not> HasPrefix rest ''/'' \<and> scheme \<noteq> [] then Inr (url\<lparr>Opaque := rest\<rparr>)
                 else if \<not> HasPrefix rest ''/'' \<and> CHR '':'' \<in> set (fst (Cut rest (CHR ''/'')))
                 then Inl FirstSegmentColon
                 else if (scheme \<noteq> [] \<or> \<not> HasPrefix rest ''///'') \<and> HasPrefix rest ''//'' then
                   (let authority = takeWhile (\<lambda>c. c \<noteq> CHR ''/'') (drop 2 rest);
                        rest = dropWhile (\<lambda>c. c \<noteq> CHR ''/'') (drop 2 rest)
                    in if \<not> parseAuthority_ok authority_rules authority then Inl InvalidAuthority
                       else if \<not> valid_escapes rest then Inl EscapeError
                       else Inr url)
                 else if \<not> valid_escapes rest then Inl EscapeError
                 else Inr (url\<lparr>OmitHost := (scheme \<noteq> [] \<and> HasPrefix rest ''/'')\<rparr>))))"

definition url_Parse :: "(string \<Rightarrow> bool) \<Rightarrow> string \<Rightarrow> url_error + URL" where
  "url_Parse authority_rules rawURL =
     (case Cut rawURL (CHR ''#'') of
        (u, frag, _) \<Rightarrow>
          (case parse authority_rules u of
             Inl err \<Rightarrow> Inl err
           | Inr url \<Rightarrow>
               if frag = [] then Inr url
               else if \<not> valid_escapes frag then Inl EscapeError
               else Inr url))"

subsection \<open>IsValidURL\<close>

definition IsValidURL :: "(string \<Rightarrow> bool) \<Rightarrow> string \<Rightarrow> bool" where
  "IsValidURL authority_rules urlCandidate =
     (case url_Parse authority_rules urlCandidate of
        Inl err \<Rightarrow> False
      | Inr urlStruct \<Rightarrow> if Scheme urlStruct = [] then False else True)"

subsection \<open>Sample requests\<close>



definition pointer_request :: "nat go_value" where
  "pointer_request = GoStruct [(''ptr'', True, False, GoNil), (''limit'', True, True, GoNumber 0)]"

definition pointer_mapping :: "(string \<times> nat go_value) list" where
  "pointer_mapping = [(''ptr'', GoNil)]"

definition clash_request :: "nat go_value" where
  "clash_request = GoStruct [(''a'', True, False, GoSlice [GoNumber 3]), (''a[0]'', True, False, GoNumber 4)]"

definition clash_mapping :: "(string \<times> nat go_value) list" where
  "clash_mapping = [(''a'', GoSlice [GoNumber 3]), (''a[0]'', GoNumber 4)]"

definition chan_request :: "nat go_value" where
  "chan_request = GoStruct [(''c'', True, False, GoChan)]"

definition chan_entries :: "(string \<times> nat go_value) list" where
  "chan_entries = [(''a'', GoBool True), (''c'', GoSlice [GoChan])]"

definition paged_fields :: "(string \<times> bool \<times> bool \<times> nat go_value) list" where
  "paged_fields = [(''limit'', True, False, GoNumber 10), (''skip'', True, True, GoNumber 0)]"



text \<open>A request with a field, marked omitempty, that holds the zero value of a struct type.\<close>

definition zero_struct_request :: "nat go_value" where
  "zero_struct_request = GoStruct [(''s'', True, True, GoStruct [])]"



definition not_found_body :: string where
  "not_found_body = [CHR ''{'', CHR 0x22] @ ''message'' @ [CHR 0x22, CHR '':'', CHR 0x22] @ ''not found'' @ [CHR 0x22, CHR ''}'']"

section \<open>Properties\<close>

subsection \<open>BuildPath\<close>

lemma BuildPath_loop_eq:
  "BuildPath_loop f acc parts =
     acc @ map (\<lambda>s. Trim s ''/'') (filter (\<lambda>s. s \<noteq> []) (map (render_part f) parts))"
  by (induction parts arbitrary: acc) (auto simp: render_part_def Let_def split: part.splits)

lemma dropWhile_all_Nil: "(\<forall>x \<in> set (dropWhile P xs). P x) \<Longrightarrow> dropWhile P xs = []"
  using hd_dropWhile [of P xs] hd_in_set [of "dropWhile P xs"] by blast

lemma Trim_Nil_conv: "Trim s cs = [] \<longleftrightarrow> set s \<subseteq> set cs"
proof
  assume "Trim s cs = []"
  then have "\<forall>x \<in> set (dropWhile (\<lambda>c. c \<in> set cs) s). x \<in> set cs"
    by (simp only: Trim_def rev_is_Nil_conv dropWhile_eq_Nil_conv set_rev)
  then have "dropWhile (\<lambda>c. c \<in> set cs) s = []"
    by (rule dropWhile_all_Nil)
  then show "set s \<subseteq> set cs"
    by (simp add: subset_iff)
next
  assume "set s \<subseteq> set cs"
  then have "dropWhile (\<lambda>c. c \<in> set cs) s = []"
    by (simp add: subset_iff)
  then show "Trim s cs = []"
    unfolding Trim_def by (simp only: rev.simps dropWhile.simps)
qed

text \<open>
  C6, as stated, fails: a part that consists only of separators is not dropped, because
  the emptiness test of the code is on the text before trimming. Such a part leaves an
  empty segment, and two separators meet in the result.
\<close>

theorem BuildPath_separator_part_counterexample:
  "BuildPath (\<lambda>u::unit. []) [PartString ''a'', PartString ''/'', PartString ''b''] = ''a//b''
   \<and> BuildPath_spec (\<lambda>u::unit. []) [PartString ''a'', PartString ''/'', PartString ''b''] = ''a/b''"
  by (simp add: BuildPath_def BuildPath_spec_def render_part_def Trim_def)

text \<open>
  C6, amended: BuildPath renders each part, drops the parts whose rendered text is empty,
  trims the leading and trailing separators of the others and joins them with one
  separator; when no part consists only of separators this is the path builder of the
  specification, and BuildPath("/files/", "", "123/", "/details") is "files/123/details".
\<close>

lemma BuildPath_eq:
  "BuildPath f parts =
     Join (map (\<lambda>s. Trim s ''/'') (filter (\<lambda>s. s \<noteq> []) (map (render_part f) parts))) ''/''"
  by (simp add: BuildPath_def BuildPath_loop_eq)

lemma BuildPath_eq_spec:
  assumes h: "\<forall>p \<in> set parts. \<not> only_separators (render_part f p)"
  shows "BuildPath f parts = BuildPath_spec f parts"
proof -
  have "map (\<lambda>s. Trim s ''/'') (filter (\<lambda>s. s \<noteq> []) (map (render_part f) parts))
        = filter (\<lambda>s. s \<noteq> []) (map (\<lambda>p. Trim (render_part f p) ''/'') parts)"
    using h
  proof (induction parts)
    case Nil
    then show ?case by simp
  next
    case (Cons p ps)
    then have "\<not> only_separators (render_part f p)" by simp
    then have "render_part f p \<noteq> [] \<longleftrightarrow> Trim (render_part f p) ''/'' \<noteq> []"
      unfolding only_separators_def Trim_Nil_conv by (cases "render_part f p = []") simp_all
    with Cons show ?case by simp
  qed
  then show ?thesis
    by (simp add: BuildPath_eq BuildPath_spec_def)
qed

theorem BuildPath_amended:
  "BuildPath f parts =
     Join (map (\<lambda>s. Trim s ''/'') (filter (\<lambda>s. s \<noteq> []) (map (render_part f) parts))) ''/''
   \<and> ((\<forall>p \<in> set parts. \<not> only_separators (render_part f p)) \<longrightarrow>
        BuildPath f parts = BuildPath_spec f parts)
   \<and> BuildPath f [PartString ''/files/'', PartString '''', PartString ''123/'', PartString ''/details'']
        = ''files/123/details''"
proof (intro conjI impI)
  show "BuildPath f parts =
     Join (map (\<lambda>s. Trim s ''/'') (filter (\<lambda>s. s \<noteq> []) (map (render_part f) parts))) ''/''"
    by (rule BuildPath_eq)
next
  assume "\<forall>p \<in> set parts. \<not> only_separators (render_part f p)"
  then show "BuildPath f parts = BuildPath_spec f parts"
    by (rule BuildPath_eq_spec)
next
  show "BuildPath f [PartString ''/files/'', PartString '''', PartString ''123/'', PartString ''/details'']
     = ''files/123/details''"
    by (simp add: BuildPath_def Trim_def)
qed

theorem BuildPath_amended_witness:
  "\<not> only_separators (render_part (\<lambda>n. ''7'') (PartString ''/v1/''))
   \<and> \<not> only_separators (render_part (\<lambda>n. ''7'') (PartStringer ''''))
   \<and> \<not> only_separators (render_part (\<lambda>n. ''7'') (PartOther (7::nat)))
   \<and> BuildPath (\<lambda>n. ''7'') [PartString ''/v1/'', PartStringer '''', PartOther (7::nat)] = ''v1/7''
   \<and> BuildPath_spec (\<lambda>n. ''7'') [PartString ''/v1/'', PartStringer '''', PartOther (7::nat)] = ''v1/7''"
proof -
  have n1: "\<not> only_separators (render_part (\<lambda>n. ''7'') (PartString ''/v1/''))"
    and n2: "\<not> only_separators (render_part (\<lambda>n. ''7'') (PartStringer ''''))"
    and n3: "\<not> only_separators (render_part (\<lambda>n. ''7'') (PartOther (7::nat)))"
    by (simp_all add: only_separators_def render_part_def)
  then have h: "\<forall>p \<in> set [PartString ''/v1/'', PartStringer '''', PartOther (7::nat)].
      \<not> only_separators (render_part (\<lambda>n. ''7'') p)"
    by simp
  have e: "BuildPath_spec (\<lambda>n. ''7'') [PartString ''/v1/'', PartStringer '''', PartOther (7::nat)] = ''v1/7''"
    by (simp add: BuildPath_spec_def render_part_def Trim_def)
  have "BuildPath (\<lambda>n. ''7'') [PartString ''/v1/'', PartStringer '''', PartOther (7::nat)]
        = BuildPath_spec (\<lambda>n. ''7'') [PartString ''/v1/'', PartStringer '''', PartOther (7::nat)]"
    using BuildPath_amended [THEN conjunct2, THEN conjunct1] h by blast
  then have b: "BuildPath (\<lambda>n. ''7'') [PartString ''/v1/'', PartStringer '''', PartOther (7::nat)] = ''v1/7''"
    using e by (rule trans)
  from n1 n2 n3 b e show ?thesis by blast
qed

subsection \<open>The parameter loops\<close>

lemma collect_Inl: "collect rs = Inl e \<Longrightarrow> Inl e \<in> set rs"
  by (induction rs rule: collect.induct) (auto split: sum.splits)

lemma collect_Inr: "collect rs = Inr xs \<Longrightarrow> rs = map Inr xs"
  by (induction rs arbitrary: xs rule: collect.induct) (auto split: sum.splits)

lemma collect_map_Inr: "collect (map Inr xs) = Inr xs"
  by (induction xs) auto

lemma json_Marshal_error: "json_Marshal v = Inl e \<Longrightarrow> e = UnsupportedTypeError"
proof (induction v arbitrary: e rule: json_Marshal.induct)
  case (5 xs)
  then show ?case
    by (auto split: sum.splits dest!: collect_Inl)
next
  case (6 kvs)
  then show ?case
    by (auto split: sum.splits prod.splits dest!: collect_Inl)
next
  case (7 fs)
  then show ?case
    by (auto split: sum.splits prod.splits dest!: collect_Inl)
qed simp_all

lemma encodeParamValue_error:
  "snd (encodeParamValue f v) = Some e \<Longrightarrow> e = UnsupportedTypeError"
  by (auto simp: encodeParamValue_def Let_def split: sum.splits if_splits dest: json_Marshal_error)

lemma add_all_Nil [simp]: "add_all p [] = p"
  by (simp add: add_all_def)

lemma add_all_Cons [simp]: "add_all p ((k, v) # kvs) = add_all (Add p k v) kvs"
  by (simp add: add_all_def)

lemma add_all_append [simp]: "add_all p (xs @ ys) = add_all (add_all p xs) ys"
  by (simp add: add_all_def)

lemma array_loop_eq:
  "array_loop f name rv i p =
     (if list_all (\<lambda>j. snd (encodeParamValue f (Index rv j)) = None) [i..<Len rv]
      then Inr (add_all p (map (\<lambda>j. (Sprintf_index name j, fst (encodeParamValue f (Index rv j))))
                            [i..<Len rv]))
      else Inl UnsupportedTypeError)"
proof (induction f name rv i p rule: array_loop.induct)
  case (1 f name rv i p)
  show ?case
  proof (cases "i < Len rv")
    case False
    then show ?thesis by (subst array_loop.simps) simp
  next
    case True
    then have up: "[i..<Len rv] = i # [Suc i..<Len rv]"
      by (simp add: upt_conv_Cons)
    obtain val err where enc: "encodeParamValue f (Index rv i) = (val, err)"
      by (cases "encodeParamValue f (Index rv i)")
    show ?thesis
    proof (cases err)
      case None
      with 1 [OF True refl enc [symmetric]] True enc up show ?thesis
        by (subst array_loop.simps) (simp add: Let_def)
    next
      case (Some e)
      with enc encodeParamValue_error [of f "Index rv i" e] True up show ?thesis
        by (subst array_loop.simps) (simp add: Let_def)
    qed
  qed
qed

lemma emitted_pair:
  "emitted f (name, v) =
     (if Kind_of v = Slice \<or> Kind_of v = Array
      then map (\<lambda>i. (Sprintf_index name i, fst (encodeParamValue f (Index v i)))) [0..<Len v]
      else [(name, fst (encodeParamValue f v))])"
  by (simp add: emitted_def)

lemma encodes_pair:
  "encodes f (name, v) =
     (if Kind_of v = Slice \<or> Kind_of v = Array
      then list_all (\<lambda>i. snd (encodeParamValue f (Index v i)) = None) [0..<Len v]
      else snd (encodeParamValue f v) = None)"
  by (simp add: encodes_def)

lemma params_loop_eq:
  "params_loop f entries p =
     (if list_all (encodes f) entries then Inr (add_all p (concat (map (emitted f) entries)))
      else Inl UnsupportedTypeError)"
proof (induction entries arbitrary: p)
  case Nil
  then show ?case by simp
next
  case (Cons e entries)
  obtain name v where e: "e = (name, v)" by (cases e)
  show ?case
  proof (cases "Kind_of v = Slice \<or> Kind_of v = Array")
    case True
    then show ?thesis
      using Cons
      by (simp add: e array_loop_eq encodes_pair emitted_pair)
  next
    case False
    obtain val err where enc: "encodeParamValue f v = (val, err)"
      by (cases "encodeParamValue f v")
    show ?thesis
    proof (cases err)
      case None
      with False enc Cons show ?thesis
        by (simp add: e encodes_pair emitted_pair)
    next
      case (Some x)
      with False enc encodeParamValue_error [of f v x] show ?thesis
        by (simp add: e encodes_pair emitted_pair)
    qed
  qed
qed

lemma add_all_lookup:
  "add_all p kvs key =
     (if values_of kvs key = [] then p key
      else Some ((case p key of None \<Rightarrow> [] | Some vs \<Rightarrow> vs) @ values_of kvs key))"
proof (induction kvs arbitrary: p)
  case Nil
  then show ?case by (simp add: values_of_def)
next
  case (Cons kv kvs)
  obtain k v where kv: "kv = (k, v)" by (cases kv)
  show ?case
    by (simp add: kv Cons Add_def values_of_def)
qed

lemma all_Inr_map: "(\<forall>r \<in> set rs. \<exists>x. r = Inr x) \<Longrightarrow> \<exists>xs. rs = map Inr xs"
proof (induction rs)
  case Nil
  then show ?case by simp
next
  case (Cons r rs)
  then obtain x xs where "r = Inr x" "rs = map Inr xs" by auto
  then have "r # rs = map Inr (x # xs)" by simp
  then show ?case by (rule exI)
qed

lemma collect_all_Inr: "(\<forall>r \<in> set rs. \<exists>x. r = Inr x) \<Longrightarrow> \<exists>xs. collect rs = Inr xs"
  using all_Inr_map [of rs] collect_map_Inr by metis

lemma set_update_subset: "set (AList.update k v al) \<subseteq> insert (k, v) (set al)"
  by (induction al) auto

lemma set_foldl_update:
  "set (foldl (\<lambda>m (key, j). AList.update key j m) acc xs) \<subseteq> set acc \<union> set xs"
proof (induction xs arbitrary: acc)
  case Nil
  then show ?case by simp
next
  case (Cons x xs)
  obtain k v where x: "x = (k, v)" by (cases x)
  from Cons [of "AList.update k v acc"] set_update_subset [of k v acc]
  show ?case by (auto simp: x)
qed

lemma map_eq_map_Inr: "map f xs = map Inr ys \<Longrightarrow> x \<in> set xs \<Longrightarrow> \<exists>y. f x = Inr y"
proof -
  assume eq: "map f xs = map Inr ys" and x: "x \<in> set xs"
  from x have "f x \<in> set (map f xs)" by simp
  then have "f x \<in> set (map Inr ys)" by (simp only: eq)
  then show ?thesis by auto
qed

lemma collect_Inr_iff: "(\<exists>ys. collect (map f xs) = Inr ys) \<longleftrightarrow> (\<forall>x \<in> set xs. \<exists>y. f x = Inr y)"
proof
  assume "\<exists>ys. collect (map f xs) = Inr ys"
  then obtain ys where "collect (map f xs) = Inr ys" ..
  then have "map f xs = map Inr ys" by (rule collect_Inr)
  then show "\<forall>x \<in> set xs. \<exists>y. f x = Inr y"
    using map_eq_map_Inr by fast
next
  assume "\<forall>x \<in> set xs. \<exists>y. f x = Inr y"
  then have "\<forall>r \<in> set (map f xs). \<exists>x. r = Inr x" by auto
  then show "\<exists>ys. collect (map f xs) = Inr ys" by (rule collect_all_Inr)
qed

lemma json_Marshal_GoSlice_iff:
  "(\<exists>d. json_Marshal (GoSlice xs) = Inr d) \<longleftrightarrow> (\<forall>x \<in> set xs. \<exists>d. json_Marshal x = Inr d)"
proof -
  have "(\<exists>d. json_Marshal (GoSlice xs) = Inr d) \<longleftrightarrow> (\<exists>js. collect (map json_Marshal xs) = Inr js)"
    by (cases "collect (map json_Marshal xs)") simp_all
  then show ?thesis by (simp only: collect_Inr_iff)
qed

lemma member_Inr_iff:
  "(\<exists>y. (case kv of (k, v) \<Rightarrow> case json_Marshal v of Inl e \<Rightarrow> Inl e | Inr j \<Rightarrow> Inr (k, j)) = Inr y)
     \<longleftrightarrow> (\<exists>d. json_Marshal (snd kv) = Inr d)"
  by (cases kv; cases "json_Marshal (snd kv)") simp_all

lemma json_Marshal_GoMap_iff:
  "(\<exists>d. json_Marshal (GoMap kvs) = Inr d) \<longleftrightarrow> (\<forall>kv \<in> set kvs. \<exists>d. json_Marshal (snd kv) = Inr d)"
proof -
  let ?g = "\<lambda>(k, v). case json_Marshal v of Inl e \<Rightarrow> Inl e | Inr j \<Rightarrow> Inr (k, j)"
  have "(\<exists>d. json_Marshal (GoMap kvs) = Inr d)
          \<longleftrightarrow> (\<exists>ms. collect (map ?g (sort_key fst kvs)) = Inr ms)"
    by (cases "collect (map ?g (sort_key fst kvs))") simp_all
  also have "\<dots> \<longleftrightarrow> (\<forall>kv \<in> set (sort_key fst kvs). \<exists>y. ?g kv = Inr y)"
    by (rule collect_Inr_iff)
  also have "\<dots> \<longleftrightarrow> (\<forall>kv \<in> set kvs. \<exists>d. json_Marshal (snd kv) = Inr d)"
    by (simp only: member_Inr_iff set_sort)
  finally show ?thesis .
qed

lemma json_Marshal_valueInterface: "\<exists>d. json_Marshal (valueInterface j) = Inr d"
proof (induction j)
  case (JArray js)
  then show ?case
    unfolding valueInterface.simps json_Marshal_GoSlice_iff by simp
next
  case (JObject ms)
  let ?xs = "map (\<lambda>(key, j). (key, valueInterface j)) ms"
  have "\<exists>d. json_Marshal (snd kv) = Inr d" if "kv \<in> set ?xs" for kv
  proof -
    from that obtain key j where "(key, j) \<in> set ms" "kv = (key, valueInterface j)"
      by auto
    with JObject [of "(key, j)" j] show ?thesis by simp
  qed
  moreover have "set (foldl (\<lambda>m (key, j). AList.update key j m) [] ?xs) \<subseteq> set ?xs"
    using set_foldl_update [of "[]" ?xs] by simp
  ultimately show ?case
    unfolding valueInterface.simps json_Marshal_GoMap_iff by blast
qed simp_all

lemma encodeParamValue_ok:
  "json_Marshal v = Inr d \<Longrightarrow> snd (encodeParamValue f v) = None"
  by (simp add: encodeParamValue_def Let_def)

lemma generic_mapping_cases:
  assumes "generic_mapping x = (m, None)"
  shows "m = [] \<or> (\<exists>doc. valueInterface doc = GoMap m)"
proof (cases "json_Marshal x")
  case (Inl e)
  with assms show ?thesis
    by (simp add: generic_mapping_def json_Unmarshal_map_def)
next
  case (Inr doc)
  with assms show ?thesis
    by (cases "valueInterface doc")
       (auto simp add: generic_mapping_def json_Unmarshal_map_def split: if_splits)
qed

lemma generic_mapping_marshals:
  assumes "generic_mapping x = (m, None)" and "kv \<in> set m"
  shows "\<exists>d. json_Marshal (snd kv) = Inr d"
proof -
  from generic_mapping_cases [OF assms(1)] assms(2)
  obtain doc where "valueInterface doc = GoMap m" by auto
  with json_Marshal_valueInterface [of doc] have "\<exists>d. json_Marshal (GoMap m) = Inr d"
    by simp
  with assms(2) show ?thesis
    unfolding json_Marshal_GoMap_iff by blast
qed

lemma slice_elements_marshal:
  assumes "json_Marshal v = Inr d" and "Kind_of v = Slice \<or> Kind_of v = Array" and "i < Len v"
  shows "\<exists>d'. json_Marshal (Index v i) = Inr d'"
  using assms
proof (induction v arbitrary: d rule: Kind_of.induct)
  case (5 xs)
  then have "\<forall>x \<in> set xs. \<exists>d. json_Marshal x = Inr d"
    using json_Marshal_GoSlice_iff [of xs] by blast
  with 5 show ?case using nth_mem [of i xs] by simp
qed simp_all

lemma generic_mapping_encodes:
  assumes "generic_mapping x = (m, None)" and "e \<in> set m"
  shows "encodes f e"
proof -
  obtain k v where e: "e = (k, v)" by (cases e)
  from generic_mapping_marshals [OF assms] e
  obtain d where d: "json_Marshal v = Inr d" by auto
  show ?thesis
  proof (cases "Kind_of v = Slice \<or> Kind_of v = Array")
    case True
    have "snd (encodeParamValue f (Index v i)) = None" if "i < Len v" for i
    proof -
      from slice_elements_marshal [OF d True that] obtain d' where "json_Marshal (Index v i) = Inr d'" ..
      then show ?thesis by (rule encodeParamValue_ok)
    qed
    with True show ?thesis by (simp add: e encodes_def list_all_iff)
  next
    case False
    with encodeParamValue_ok [OF d] show ?thesis by (simp add: e encodes_def)
  qed
qed

lemma StructToParams_eq:
  "StructToParams f ro x =
     (case generic_mapping x of
        (m, Some err) \<Rightarrow> (None, Some err)
      | (m, None) \<Rightarrow>
          if list_all (encodes f) (ro m)
          then (Some (add_all Map.empty (concat (map (emitted f) (ro m)))), None)
          else (None, Some UnsupportedTypeError))"
  by (simp add: StructToParams_def generic_mapping_def params_loop_eq Let_def
           split: prod.splits option.splits)

lemma StructToParams_ok:
  assumes "generic_mapping x = (m, None)" and "mset (ro m) = mset m"
  shows "StructToParams f ro x = (Some (add_all Map.empty (concat (map (emitted f) (ro m)))), None)"
proof -
  from assms(2) have "set (ro m) = set m" by (rule mset_eq_setD)
  with generic_mapping_encodes [OF assms(1)] have "list_all (encodes f) (ro m)"
    by (simp add: list_all_iff)
  with assms(1) show ?thesis by (simp add: StructToParams_eq)
qed

lemma decimal_nonempty: "decimal n \<noteq> []"
  by (subst decimal.simps) simp



lemma digit_char_inj:
  assumes "a < 10" and "b < 10" and "(char_of (48 + a :: nat) :: char) = char_of (48 + b)"
  shows "a = b"
proof -
  from assms(3) have "(of_char (char_of (48 + a) :: char) :: nat) = of_char (char_of (48 + b) :: char)"
    by (rule arg_cong)
  then have "(48 + a) mod 256 = (48 + b) mod 256"
    by (simp only: of_char_of)
  with assms(1,2) show ?thesis by simp
qed

lemma decimal_small: "n < 10 \<Longrightarrow> decimal n = [char_of (48 + n)]"
  by (subst decimal.simps) simp

lemma decimal_large: "\<not> n < 10 \<Longrightarrow> decimal n = decimal (n div 10) @ [char_of (48 + n mod 10)]"
  by (subst decimal.simps) simp

lemma decimal_inj: "decimal a = decimal b \<Longrightarrow> a = b"
proof (induction a arbitrary: b rule: decimal.induct)
  case (1 a)
  show ?case
  proof (cases "a < 10")
    case a: True
    show ?thesis
    proof (cases "b < 10")
      case True
      have "(char_of (48 + a) :: char) = char_of (48 + b)"
        using decimal_small [OF a] decimal_small [OF True] "1.prems" by simp
      with a True show ?thesis by (rule digit_char_inj)
    next
      case False
      have "[char_of (48 + a)] = decimal (b div 10) @ [char_of (48 + b mod 10)]"
        using decimal_small [OF a] decimal_large [OF False] "1.prems" by simp
      with decimal_nonempty [of "b div 10"] show ?thesis by simp
    qed
  next
    case a: False
    show ?thesis
    proof (cases "b < 10")
      case True
      have "decimal (a div 10) @ [char_of (48 + a mod 10)] = [char_of (48 + b)]"
        using decimal_large [OF a] decimal_small [OF True] "1.prems" by simp
      with decimal_nonempty [of "a div 10"] show ?thesis by simp
    next
      case False
      have "decimal (a div 10) @ [char_of (48 + a mod 10)]
          = decimal (b div 10) @ [char_of (48 + b mod 10)]"
        using decimal_large [OF a] decimal_large [OF False] "1.prems" by simp
      then have d: "decimal (a div 10) = decimal (b div 10)"
        and c: "(char_of (48 + a mod 10) :: char) = char_of (48 + b mod 10)"
        by simp_all
      from "1.IH" [OF a d] have q: "a div 10 = b div 10" .
      from c have r: "a mod 10 = b mod 10"
        by (rule digit_char_inj [rotated 2]) simp_all
      have "a = a div 10 * 10 + a mod 10" by (simp only: div_mult_mod_eq)
      also have "\<dots> = b div 10 * 10 + b mod 10" by (simp only: q r)
      also have "\<dots> = b" by (simp only: div_mult_mod_eq)
      finally show ?thesis .
    qed
  qed
qed

lemma Sprintf_index_inj: "Sprintf_index s i = Sprintf_index s j \<longleftrightarrow> i = j"
  by (auto simp: Sprintf_index_def dest: decimal_inj)




lemma values_of_append: "values_of (xs @ ys) key = values_of xs key @ values_of ys key"
  by (simp add: values_of_def)

lemma values_of_concat:
  "values_of (concat (map g es)) key = concat (map (\<lambda>e. values_of (g e) key) es)"
  by (induction es) (simp_all add: values_of_append, simp add: values_of_def)

lemma params_lookup:
  "add_all Map.empty kvs key = (if values_of kvs key = [] then None else Some (values_of kvs key))"
  by (simp add: add_all_lookup)

lemma concat_single:
  "distinct es \<Longrightarrow> e \<in> set es \<Longrightarrow> (\<forall>e' \<in> set es. e' \<noteq> e \<longrightarrow> g e' = []) \<Longrightarrow>
     concat (map g es) = g e"
proof (induction es)
  case Nil
  then show ?case by simp
next
  case (Cons a es)
  show ?case
  proof (cases "a = e")
    case True
    with Cons.prems have "\<forall>e' \<in> set es. g e' = []" by auto
    then have "concat (map g es) = []" by simp
    with True show ?thesis by simp
  next
    case False
    with Cons.prems have "g a = []" and "e \<in> set es" and "distinct es"
      and "\<forall>e' \<in> set es. e' \<noteq> e \<longrightarrow> g e' = []" by auto
    with Cons.IH show ?thesis by simp
  qed
qed

lemma filter_eq_upt: "filter (\<lambda>j. j = i) [0..<n] = (if i < n then [i] else [])"
  by (induction n) auto

lemma values_of_map:
  "values_of (map h js) key = map (\<lambda>j. snd (h j)) (filter (\<lambda>j. fst (h j) = key) js)"
  by (induction js) (simp_all add: values_of_def)

lemma values_of_emitted_slice:
  "values_of (emitted f (name, GoSlice es)) (Sprintf_index name i) =
     (if i < length es then [fst (encodeParamValue f (es ! i))] else [])"
  by (simp add: emitted_pair values_of_map Sprintf_index_inj filter_eq_upt)


lemma distinct_foldl_update:
  "distinct (map fst acc) \<Longrightarrow> distinct (map fst (foldl (\<lambda>m (key, j). AList.update key j m) acc xs))"
proof (induction xs arbitrary: acc)
  case Nil
  then show ?case by simp
next
  case (Cons x xs)
  obtain k v where x: "x = (k, v)" by (cases x)
  from Cons.prems have "distinct (map fst (AList.update k v acc))"
    by (rule distinct_update)
  from Cons.IH [OF this] show ?case by (simp add: x)
qed

lemma generic_mapping_distinct:
  assumes "generic_mapping x = (m, None)"
  shows "distinct (map fst m)"
proof -
  from generic_mapping_cases [OF assms] show ?thesis
  proof
    assume "m = []"
    then show ?thesis by simp
  next
    assume "\<exists>doc. valueInterface doc = GoMap m"
    then obtain doc where doc: "valueInterface doc = GoMap m" ..
    then obtain ms where "doc = JObject ms" by (cases doc) simp_all
    with doc have "m = foldl (\<lambda>m (key, j). AList.update key j m) []
              (map (\<lambda>(key, j). (key, valueInterface j)) ms)" by simp
    then show ?thesis using distinct_foldl_update [of "[]"] by simp
  qed
qed

lemma distinct_keys_entries:
  assumes "distinct (map fst m)" and "e \<in> set m" and "e' \<in> set m" and "e' \<noteq> e"
  shows "fst e' \<noteq> fst e"
  using assms by (metis distinct_map inj_onD)

lemma StructToParams_lookup:
  assumes "generic_mapping x = (m, None)" and "mset (ro m) = mset m"
  shows "\<exists>params. StructToParams f ro x = (Some params, None)
     \<and> (\<forall>key. params key =
           (if concat (map (\<lambda>e. values_of (emitted f e) key) (ro m)) = [] then None
            else Some (concat (map (\<lambda>e. values_of (emitted f e) key) (ro m)))))"
  using StructToParams_ok [where ro = ro and f = f, OF assms]
  by (simp add: params_lookup values_of_concat)

lemma perm_facts:
  assumes "generic_mapping x = (m, None)" and "mset (ro m) = mset m"
  shows "set (ro m) = set m" and "distinct (ro m)" and "distinct (map fst m)"
proof -
  show d: "distinct (map fst m)" using assms(1) by (rule generic_mapping_distinct)
  show "set (ro m) = set m" using assms(2) by (rule mset_eq_setD)
  from d have "distinct m" by (simp add: distinct_map)
  with mset_eq_imp_distinct_iff [OF assms(2)] show "distinct (ro m)" by simp
qed

lemma member_concat_values:
  assumes "e \<in> set es" and "v \<in> set (g e)"
  shows "v \<in> set (concat (map g es))"
  using assms by auto

text \<open>What the entry of an array field contributes, and when nothing else reaches its keys.\<close>

lemma array_field_member:
  assumes "generic_mapping x = (m, None)" and "mset (ro m) = mset m"
    and "(name, GoSlice es) \<in> set m" and "i < length es"
    and "StructToParams f ro x = (Some params, None)"
  shows "\<exists>vs. params (Sprintf_index name i) = Some vs \<and> fst (encodeParamValue f (es ! i)) \<in> set vs"
proof -
  let ?key = "Sprintf_index name i"
  let ?all = "concat (map (\<lambda>e. values_of (emitted f e) ?key) (ro m))"
  from perm_facts(1) [where ro = ro, OF assms(1,2)] assms(3) have "(name, GoSlice es) \<in> set (ro m)" by simp
  moreover have "fst (encodeParamValue f (es ! i)) \<in> set (values_of (emitted f (name, GoSlice es)) ?key)"
    using assms(4) by (simp add: values_of_emitted_slice)
  ultimately have mem: "fst (encodeParamValue f (es ! i)) \<in> set ?all"
    by (rule member_concat_values)
  then have "0 < length ?all" by (rule length_pos_if_in_set)
  then have "?all \<noteq> []" by (simp only: length_greater_0_conv not_False_eq_True)
  moreover from StructToParams_lookup [where ro = ro and f = f, OF assms(1,2)] assms(5)
  have "params ?key = (if ?all = [] then None else Some ?all)"
    by (simp only: prod.inject option.inject) blast
  ultimately have "params ?key = Some ?all"
    by (simp only: if_False)
  with mem show ?thesis by blast
qed


lemma DecodeRuneInString_ascii: "byte c < 0x80 \<Longrightarrow> DecodeRuneInString (c # s) = (byte c, 1)"
  by (simp add: DecodeRuneInString.simps)

lemma char_of_byte: "char_of (byte c) = c"
  by (simp add: byte_def)

lemma coerce_utf8_ascii: "list_all (\<lambda>c. byte c < 0x80) s \<Longrightarrow> coerce_utf8 s = s"
  by (induction s) (simp_all add: DecodeRuneInString_ascii AppendRune_def char_of_byte)

lemma encodeParamValue_GoNil: "encodeParamValue f GoNil = (''null'', None)"
  by (simp add: encodeParamValue_def HasPrefix_def)

lemma values_of_emitted_scalar:
  assumes "Kind_of v \<noteq> Slice" and "Kind_of v \<noteq> Array"
  shows "values_of (emitted f (name, v)) name = [fst (encodeParamValue f v)]"
  using assms by (simp add: emitted_pair values_of_def)

lemma values_of_emitted_none:
  assumes "k \<noteq> key" and "\<forall>j. Sprintf_index k j \<noteq> key"
  shows "values_of (emitted f (k, v)) key = []"
  using assms by (simp add: emitted_pair values_of_map) (simp add: values_of_def)

lemma scalar_field_member:
  assumes "generic_mapping x = (m, None)" and "mset (ro m) = mset m"
    and "(name, v) \<in> set m" and "Kind_of v \<noteq> Slice" and "Kind_of v \<noteq> Array"
    and "StructToParams f ro x = (Some params, None)"
  shows "\<exists>vs. params name = Some vs \<and> fst (encodeParamValue f v) \<in> set vs"
proof -
  let ?all = "concat (map (\<lambda>e. values_of (emitted f e) name) (ro m))"
  from perm_facts(1) [where ro = ro, OF assms(1,2)] assms(3) have "(name, v) \<in> set (ro m)" by simp
  moreover have "fst (encodeParamValue f v) \<in> set (values_of (emitted f (name, v)) name)"
    using assms(4,5) by (simp add: values_of_emitted_scalar)
  ultimately have mem: "fst (encodeParamValue f v) \<in> set ?all"
    by (rule member_concat_values)
  then have "0 < length ?all" by (rule length_pos_if_in_set)
  then have "?all \<noteq> []" by (simp only: length_greater_0_conv not_False_eq_True)
  moreover from StructToParams_lookup [where ro = ro and f = f, OF assms(1,2)] assms(6)
  have "params name = (if ?all = [] then None else Some ?all)"
    by (simp only: prod.inject option.inject) blast
  ultimately have "params name = Some ?all"
    by (simp only: if_False)
  with mem show ?thesis by blast
qed

lemma scalar_field_exact:
  assumes "generic_mapping x = (m, None)" and "mset (ro m) = mset m"
    and "(name, v) \<in> set m" and "Kind_of v \<noteq> Slice" and "Kind_of v \<noteq> Array"
    and "\<forall>k \<in> fst ` set m. \<forall>j. Sprintf_index k j \<noteq> name"
    and "StructToParams f ro x = (Some params, None)"
  shows "params name = Some [fst (encodeParamValue f v)]"
proof -
  let ?g = "\<lambda>e. values_of (emitted f e) name"
  note pf = perm_facts [where ro = ro, OF assms(1,2)]
  have other: "?g e' = []" if "e' \<in> set (ro m)" and "e' \<noteq> (name, v)" for e'
  proof -
    obtain k w where e': "e' = (k, w)" by (cases e')
    from that pf(1) have "e' \<in> set m" by simp
    from distinct_keys_entries [OF pf(3) assms(3) this that(2)] e'
    have "k \<noteq> name" by simp
    from \<open>e' \<in> set m\<close> have "fst e' \<in> fst ` set m" by (rule imageI)
    with e' have "k \<in> fst ` set m" by simp
    from assms(6) [rule_format, OF this]
    have "\<forall>j. Sprintf_index k j \<noteq> name" by (rule allI)
    with \<open>k \<noteq> name\<close> show ?thesis unfolding e' by (rule values_of_emitted_none)
  qed
  have others: "\<forall>e' \<in> set (ro m). e' \<noteq> (name, v) \<longrightarrow> ?g e' = []"
    by (intro ballI impI) (rule other)
  from pf(1) assms(3) have "(name, v) \<in> set (ro m)" by simp
  with pf(2) have "concat (map ?g (ro m)) = ?g (name, v)"
    using others by (rule concat_single)
  moreover from StructToParams_lookup [where ro = ro and f = f, OF assms(1,2)] assms(7)
  have "params name = (if concat (map ?g (ro m)) = [] then None else Some (concat (map ?g (ro m))))"
    by (simp only: prod.inject option.inject) blast
  ultimately show ?thesis
    using assms(4,5) by (simp add: values_of_emitted_scalar)
qed

lemma absent_key:
  assumes "generic_mapping x = (m, None)" and "mset (ro m) = mset m"
    and "key \<notin> fst ` set m" and "\<forall>k \<in> fst ` set m. \<forall>j. Sprintf_index k j \<noteq> key"
    and "StructToParams f ro x = (Some params, None)"
  shows "params key = None"
proof -
  let ?g = "\<lambda>e. values_of (emitted f e) key"
  note pf = perm_facts [where ro = ro, OF assms(1,2)]
  have "?g e = []" if "e \<in> set (ro m)" for e
  proof -
    obtain k w where e: "e = (k, w)" by (cases e)
    from that pf(1) have "e \<in> set m" by simp
    then have "fst e \<in> fst ` set m" by (rule imageI)
    with e have k: "k \<in> fst ` set m" by simp
    with assms(3) have "k \<noteq> key" by (rule_tac notI) simp
    moreover from assms(4) [rule_format, OF k] have "\<forall>j. Sprintf_index k j \<noteq> key" by (rule allI)
    ultimately show ?thesis unfolding e by (rule values_of_emitted_none)
  qed
  then have "concat (map ?g (ro m)) = []" by simp
  moreover from StructToParams_lookup [where ro = ro and f = f, OF assms(1,2)] assms(5)
  have "params key = (if concat (map ?g (ro m)) = [] then None else Some (concat (map ?g (ro m))))"
    by (simp only: prod.inject option.inject) blast
  ultimately show ?thesis by simp
qed

lemma Sprintf_index_last: "last (Sprintf_index k j) = CHR '']''"
  by (simp add: Sprintf_index_def)

lemma Sprintf_index_ne_last: "name = [] \<or> last name \<noteq> CHR '']'' \<Longrightarrow> Sprintf_index k j \<noteq> name"
  using Sprintf_index_last [of k j] by (auto simp: Sprintf_index_def)

text \<open>
  C10: when the generic mapping of the request has null under a name, the call succeeds and
  the text \<open>null\<close> is among the values of that name; when no array of the mapping has an
  indexed key equal to the name, \<open>null\<close> is its only value.
\<close>

theorem StructToParams_null_field:
  assumes "generic_mapping x = (m, None)" and "mset (ro m) = mset m"
    and "(name, GoNil) \<in> set m"
  shows "\<exists>params. StructToParams f ro x = (Some params, None)
     \<and> (\<exists>vs. params name = Some vs \<and> ''null'' \<in> set vs)
     \<and> ((\<forall>k \<in> fst ` set m. \<forall>j. Sprintf_index k j \<noteq> name) \<longrightarrow> params name = Some [''null''])"
proof -
  from StructToParams_ok [where ro = ro and f = f, OF assms(1,2)]
  obtain params where p: "StructToParams f ro x = (Some params, None)" by simp
  have k: "Kind_of (GoNil :: 'a go_value) \<noteq> Slice" "Kind_of (GoNil :: 'a go_value) \<noteq> Array"
    by simp_all
  have "\<exists>vs. params name = Some vs \<and> ''null'' \<in> set vs"
    using scalar_field_member [where ro = ro and f = f, OF assms k p]
    by (simp only: encodeParamValue_GoNil fst_conv)
  moreover have "params name = Some [''null'']"
    if "\<forall>k \<in> fst ` set m. \<forall>j. Sprintf_index k j \<noteq> name"
    using scalar_field_exact [where ro = ro and f = f, OF assms k that p]
    by (simp only: encodeParamValue_GoNil fst_conv)
  ultimately show ?thesis using p by (intro exI [of _ params] conjI impI)
qed

lemma pointer_gm: "generic_mapping pointer_request = (pointer_mapping, None)"
proof -
  have "coerce_utf8 ''ptr'' = ''ptr''"
    by (rule coerce_utf8_ascii, simp add: byte_def)
  then show ?thesis
    by (simp add: generic_mapping_def pointer_request_def pointer_mapping_def json_Unmarshal_map_def typeFields_def by_tag_def
          maxNestingDepth_def del: coerce_utf8.simps)
qed

theorem StructToParams_null_field_witness:
  "generic_mapping pointer_request = (pointer_mapping, None)
   \<and> mset (id pointer_mapping) = mset pointer_mapping
   \<and> (''ptr'', GoNil) \<in> set pointer_mapping
   \<and> (\<exists>params. StructToParams decimal id pointer_request = (Some params, None)
         \<and> params ''ptr'' = Some [''null''])"
proof -
  have perm: "mset (id pointer_mapping) = mset pointer_mapping" by simp
  have field: "(''ptr'', GoNil) \<in> set pointer_mapping" by (simp add: pointer_mapping_def)
  have free: "\<forall>k \<in> fst ` set pointer_mapping. \<forall>j. Sprintf_index k j \<noteq> ''ptr''"
    by (intro ballI allI Sprintf_index_ne_last) simp
  from StructToParams_null_field [where ro = id and f = decimal, OF pointer_gm perm field]
  obtain params where p: "StructToParams decimal id pointer_request = (Some params, None)"
    and imp: "(\<forall>k \<in> fst ` set pointer_mapping. \<forall>j. Sprintf_index k j \<noteq> ''ptr'')
                \<longrightarrow> params ''ptr'' = Some [''null'']"
    by (elim exE conjE)
  from imp free have "params ''ptr'' = Some [''null'']" by (rule mp)
  with pointer_gm perm field p show ?thesis by (intro conjI exI [of _ params])
qed

lemma mset_concat_map_cong:
  assumes "mset es1 = mset es2"
  shows "mset (concat (map g es1)) = mset (concat (map g es2))"
proof -
  have "mset (concat (map g es)) = sum_mset (image_mset (\<lambda>e. mset (g e)) (mset es))" for es
    by (induction es) simp_all
  with assms show ?thesis by simp
qed

lemma params_multiset:
  assumes "mset es1 = mset es2"
  shows "map_option mset (add_all Map.empty (concat (map g es1)) key)
       = map_option mset (add_all Map.empty (concat (map g es2)) key)"
proof -
  let ?v1 = "values_of (concat (map g es1)) key" and ?v2 = "values_of (concat (map g es2)) key"
  from mset_concat_map_cong [OF assms, of g]
  have "mset ?v1 = mset ?v2" by (simp add: values_of_def)
  moreover from this have "?v1 = [] \<longleftrightarrow> ?v2 = []"
    by (metis mset_zero_iff)
  ultimately show ?thesis by (simp add: params_lookup)
qed

text \<open>
  C5: StructToParams is a function of the request and of the order in which the runtime
  enumerates the generic mapping, and the order does not show in the result beyond the
  order of the values under one key: for any two enumerations of the mapping the error is
  the same, the keys are the same and every key has the same multiset of values; the
  elements of an array are under their indexed keys in both.
\<close>

theorem StructToParams_deterministic:
  assumes "mset (ro (fst (generic_mapping x))) = mset (fst (generic_mapping x))"
    and "mset (ro' (fst (generic_mapping x))) = mset (fst (generic_mapping x))"
  shows "snd (StructToParams f ro x) = snd (StructToParams f ro' x)
     \<and> rel_option (\<lambda>p1 p2. \<forall>key. map_option mset (p1 key) = map_option mset (p2 key))
          (fst (StructToParams f ro x)) (fst (StructToParams f ro' x))
     \<and> (\<forall>name es i. (name, GoSlice es) \<in> set (fst (generic_mapping x))
            \<and> snd (generic_mapping x) = None \<and> i < length es \<longrightarrow>
          (\<exists>p1 p2 vs1 vs2. fst (StructToParams f ro x) = Some p1
             \<and> fst (StructToParams f ro' x) = Some p2
             \<and> p1 (Sprintf_index name i) = Some vs1 \<and> fst (encodeParamValue f (es ! i)) \<in> set vs1
             \<and> p2 (Sprintf_index name i) = Some vs2 \<and> fst (encodeParamValue f (es ! i)) \<in> set vs2))"
proof -
  obtain m err where gm: "generic_mapping x = (m, err)" by (cases "generic_mapping x")
  show ?thesis
  proof (cases err)
    case (Some e)
    with gm show ?thesis by (simp add: StructToParams_eq)
  next
    case None
    with gm have gm': "generic_mapping x = (m, None)" by simp
    from assms gm have perm1: "mset (ro m) = mset m" and perm2: "mset (ro' m) = mset m"
      by simp_all
    let ?p1 = "add_all Map.empty (concat (map (emitted f) (ro m)))"
    let ?p2 = "add_all Map.empty (concat (map (emitted f) (ro' m)))"
    have s1: "StructToParams f ro x = (Some ?p1, None)"
      using gm' perm1 by (rule StructToParams_ok [where ro = ro])
    have s2: "StructToParams f ro' x = (Some ?p2, None)"
      using gm' perm2 by (rule StructToParams_ok [where ro = ro'])
    from perm1 perm2 have "mset (ro m) = mset (ro' m)" by simp
    then have eq: "\<forall>key. map_option mset (?p1 key) = map_option mset (?p2 key)"
      by (intro allI params_multiset)
    have arr: "\<exists>vs1 vs2. ?p1 (Sprintf_index name i) = Some vs1
             \<and> fst (encodeParamValue f (es ! i)) \<in> set vs1
             \<and> ?p2 (Sprintf_index name i) = Some vs2 \<and> fst (encodeParamValue f (es ! i)) \<in> set vs2"
      if "(name, GoSlice es) \<in> set m" and "i < length es" for name es i
      using array_field_member [where ro = ro, OF gm' perm1 that s1]
        array_field_member [where ro = ro', OF gm' perm2 that s2] by blast
    from eq arr show ?thesis unfolding s1 s2 gm' by simp
  qed
qed

lemma clash_gm: "generic_mapping clash_request = (clash_mapping, None)"
proof -
  have "coerce_utf8 ''a'' = ''a''" "coerce_utf8 ''a[0]'' = ''a[0]''"
    by (rule coerce_utf8_ascii, simp add: byte_def)+
  then show ?thesis
    by (simp add: generic_mapping_def clash_request_def clash_mapping_def json_Unmarshal_map_def typeFields_def by_tag_def
          maxNestingDepth_def del: coerce_utf8.simps)
qed

lemma clash_values:
  "values_of (emitted decimal (''a'', GoSlice [GoNumber (3::nat)])) ''a[0]'' = [''3'']"
  "values_of (emitted decimal (''a[0]'', GoNumber (4::nat))) ''a[0]'' = [''4'']"
proof -
  have d: "decimal 0 = ''0''" "decimal 3 = ''3''" "decimal 4 = ''4''" by code_simp+
  then have e: "encodeParamValue decimal (GoNumber 3 :: nat go_value) = (''3'', None)"
    "encodeParamValue decimal (GoNumber 4 :: nat go_value) = (''4'', None)"
    by (simp_all add: encodeParamValue_def HasPrefix_def Let_def)
  from d have k: "Sprintf_index ''a'' 0 = ''a[0]''" by (simp add: Sprintf_index_def)
  from values_of_emitted_slice [of decimal "''a''" "[GoNumber 3]" 0] e k
  show "values_of (emitted decimal (''a'', GoSlice [GoNumber (3::nat)])) ''a[0]'' = [''3'']"
    by simp
  from values_of_emitted_scalar [of "GoNumber 4" decimal "''a[0]''"] e
  show "values_of (emitted decimal (''a[0]'', GoNumber (4::nat))) ''a[0]'' = [''4'']"
    by simp
qed

theorem StructToParams_deterministic_witness:
  "mset (id (fst (generic_mapping clash_request))) = mset (fst (generic_mapping clash_request))
   \<and> mset (rev (fst (generic_mapping clash_request))) = mset (fst (generic_mapping clash_request))
   \<and> snd (StructToParams decimal id clash_request) = snd (StructToParams decimal rev clash_request)
   \<and> rel_option (\<lambda>p1 p2. \<forall>key. map_option mset (p1 key) = map_option mset (p2 key))
          (fst (StructToParams decimal id clash_request)) (fst (StructToParams decimal rev clash_request))
   \<and> (\<exists>p1 p2. StructToParams decimal id clash_request = (Some p1, None)
         \<and> StructToParams decimal rev clash_request = (Some p2, None)
         \<and> p1 ''a[0]'' = Some [''3'', ''4''] \<and> p2 ''a[0]'' = Some [''4'', ''3''])"
proof -
  have perm1: "mset (id (fst (generic_mapping clash_request))) = mset (fst (generic_mapping clash_request))"
    and perm2: "mset (rev (fst (generic_mapping clash_request))) = mset (fst (generic_mapping clash_request))"
    by simp_all
  note det = StructToParams_deterministic [where f = decimal and ro = id and ro' = rev
      and x = clash_request, OF perm1 perm2]
  have p1: "mset (id clash_mapping) = mset clash_mapping"
    and p2: "mset (rev clash_mapping) = mset clash_mapping" by simp_all
  let ?p1 = "add_all Map.empty (concat (map (emitted decimal) (id clash_mapping)))"
  let ?p2 = "add_all Map.empty (concat (map (emitted decimal) (rev clash_mapping)))"
  have s1: "StructToParams decimal id clash_request = (Some ?p1, None)"
    using clash_gm p1 by (rule StructToParams_ok [where ro = id])
  have s2: "StructToParams decimal rev clash_request = (Some ?p2, None)"
    using clash_gm p2 by (rule StructToParams_ok [where ro = rev])
  have v1: "?p1 ''a[0]'' = Some [''3'', ''4'']"
    unfolding params_lookup values_of_concat by (simp add: clash_values clash_mapping_def)
  have v2: "?p2 ''a[0]'' = Some [''4'', ''3'']"
    unfolding params_lookup values_of_concat by (simp add: clash_values clash_mapping_def)
  from s1 s2 v1 v2 have "\<exists>p1 p2. StructToParams decimal id clash_request = (Some p1, None)
         \<and> StructToParams decimal rev clash_request = (Some p2, None)
         \<and> p1 ''a[0]'' = Some [''3'', ''4''] \<and> p2 ''a[0]'' = Some [''4'', ''3'']"
    by (intro exI [of _ ?p1] exI [of _ ?p2] conjI)
  with perm1 perm2 det [THEN conjunct1] det [THEN conjunct2, THEN conjunct1]
  show ?thesis by (intro conjI)
qed

text \<open>
  C4: an error and parameters never come together (the call returns parameters exactly when
  it returns no error). A request that does not marshal, or whose document does not decode
  into a mapping, gives that error and no parameters; and when a value that the loop
  encodes does not encode, the loop stops with the error, and so does the call.
\<close>

theorem StructToParams_error_no_params:
  "(snd (StructToParams f ro x) = None \<longleftrightarrow> fst (StructToParams f ro x) \<noteq> None)
   \<and> ((\<exists>e. json_Marshal x = Inl e) \<longrightarrow> StructToParams f ro x = (None, Some SyntaxError))
   \<and> (\<forall>err. snd (generic_mapping x) = Some err \<longrightarrow> StructToParams f ro x = (None, Some err))
   \<and> (\<not> list_all (encodes f) entries \<longrightarrow> params_loop f entries params = Inl UnsupportedTypeError)
   \<and> (snd (generic_mapping x) = None \<and> \<not> list_all (encodes f) (ro (fst (generic_mapping x))) \<longrightarrow>
        StructToParams f ro x = (None, Some UnsupportedTypeError))"
proof (intro conjI impI allI)
  show "snd (StructToParams f ro x) = None \<longleftrightarrow> fst (StructToParams f ro x) \<noteq> None"
    by (cases "generic_mapping x"; cases "snd (generic_mapping x)") (simp_all add: StructToParams_eq)
next
  assume "\<exists>e. json_Marshal x = Inl e"
  then show "StructToParams f ro x = (None, Some SyntaxError)"
    by (auto simp: StructToParams_def json_Unmarshal_map_def)
next
  fix err assume "snd (generic_mapping x) = Some err"
  then show "StructToParams f ro x = (None, Some err)"
    by (cases "generic_mapping x") (simp add: StructToParams_eq)
next
  assume "\<not> list_all (encodes f) entries"
  then show "params_loop f entries params = Inl UnsupportedTypeError"
    by (simp add: params_loop_eq)
next
  assume "snd (generic_mapping x) = None \<and> \<not> list_all (encodes f) (ro (fst (generic_mapping x)))"
  then show "StructToParams f ro x = (None, Some UnsupportedTypeError)"
    by (cases "generic_mapping x") (simp add: StructToParams_eq)
qed

theorem StructToParams_error_no_params_witness:
  "(\<exists>e. json_Marshal chan_request = Inl e)
   \<and> StructToParams decimal id chan_request = (None, Some SyntaxError)
   \<and> snd (generic_mapping chan_request) = Some SyntaxError
   \<and> \<not> list_all (encodes decimal) chan_entries
   \<and> params_loop decimal chan_entries Map.empty = Inl UnsupportedTypeError"
proof -
  have m: "json_Marshal chan_request = Inl UnsupportedTypeError"
    by (simp add: chan_request_def typeFields_def by_tag_def)
  then have ex: "\<exists>e. json_Marshal chan_request = Inl e" by (rule exI)
  from m have gm: "snd (generic_mapping chan_request) = Some SyntaxError"
    by (simp add: generic_mapping_def json_Unmarshal_map_def)
  have "encodeParamValue decimal (GoChan :: nat go_value) = ([], Some UnsupportedTypeError)"
    by (simp add: encodeParamValue_def)
  then have ne: "\<not> list_all (encodes decimal) chan_entries"
    by (simp add: chan_entries_def encodes_pair)
  note t = StructToParams_error_no_params [where f = decimal and ro = id and x = chan_request
      and entries = chan_entries and params = Map.empty]
  from t [THEN conjunct2, THEN conjunct1] ex
  have "StructToParams decimal id chan_request = (None, Some SyntaxError)" by (rule mp)
  moreover from t [THEN conjunct2, THEN conjunct2, THEN conjunct2, THEN conjunct1] ne
  have "params_loop decimal chan_entries Map.empty = Inl UnsupportedTypeError" by (rule mp)
  ultimately show ?thesis using ex gm ne by (intro conjI)
qed

subsection \<open>Quoting and unquoting a string\<close>

lemma mod_in_block:
  fixes a :: nat
  assumes "k * m \<le> a" and "a < k * m + m"
  shows "a mod m = a - k * m"
proof -
  from assms have "a = (a - k * m) + k * m" and "a - k * m < m" by simp_all
  then have "a mod m = (a - k * m) mod m" by (metis mod_mult_self1 mult.commute)
  with \<open>a - k * m < m\<close> show ?thesis by simp
qed

lemma div_mod_digits:
  fixes hi lo :: nat
  assumes "lo < m"
  shows "(hi * m + lo) div m = hi" "(hi * m + lo) mod m = lo"
  using assms by simp_all

lemma enc2:
  fixes a b :: nat
  assumes bounds: "0xC2 \<le> a" "a \<le> 0xDF" "0x80 \<le> b" "b \<le> 0xBF"
    and r: "r = (a mod 0x20) * 0x40 + b mod 0x40"
  shows "0x80 \<le> r \<and> r \<le> 0x7FF \<and> 0xC0 + r div 0x40 = a \<and> 0x80 + r mod 0x40 = b"
proof -
  have a: "a mod 0x20 = a - 0xC0" using mod_in_block [of 6 "0x20" a] bounds by simp
  have b: "b mod 0x40 = b - 0x80" using mod_in_block [of 2 "0x40" b] bounds by simp
  have r': "r = (a - 0xC0) * 0x40 + (b - 0x80)" by (simp only: r a b)
  have lo: "b - 0x80 < 0x40" using bounds by simp
  from div_mod_digits [OF lo, of "a - 0xC0"]
  have d: "r div 0x40 = a - 0xC0" and m: "r mod 0x40 = b - 0x80" by (simp_all only: r')
  have "0x80 \<le> r" "r \<le> 0x7FF" using bounds unfolding r' by simp_all
  moreover have "0xC0 + r div 0x40 = a" "0x80 + r mod 0x40 = b" using bounds unfolding d m by simp_all
  ultimately show ?thesis by simp
qed

lemma enc3:
  fixes a b c :: nat
  assumes bounds: "0xE0 \<le> a" "a \<le> 0xEF" "(if a = 0xE0 then 0xA0 else 0x80) \<le> b"
    "b \<le> (if a = 0xED then 0x9F else 0xBF)" "0x80 \<le> c" "c \<le> 0xBF"
    and r: "r = (a mod 0x10) * 0x1000 + (b mod 0x40) * 0x40 + c mod 0x40"
  shows "0x800 \<le> r \<and> r \<le> 0xFFFF \<and> \<not> (0xD800 \<le> r \<and> r \<le> 0xDFFF)
     \<and> 0xE0 + r div 0x1000 = a \<and> 0x80 + r div 0x40 mod 0x40 = b \<and> 0x80 + r mod 0x40 = c"
proof -
  from bounds have bb: "0x80 \<le> b" "b \<le> 0xBF" by (simp_all split: if_splits)
  have a: "a mod 0x10 = a - 0xE0" using mod_in_block [of 14 "0x10" a] bounds by simp
  have b: "b mod 0x40 = b - 0x80" using mod_in_block [of 2 "0x40" b] bb by simp
  have c: "c mod 0x40 = c - 0x80" using mod_in_block [of 2 "0x40" c] bounds by simp
  define a' b' c' where "a' = a - 0xE0" and "b' = b - 0x80" and "c' = c - 0x80"
  have r': "r = (a' * 0x40 + b') * 0x40 + c'"
    by (simp only: r a b c a'_def b'_def c'_def) simp
  have lt: "c' < 0x40" "b' < 0x40" "a' < 0x10" using bounds bb by (simp_all add: a'_def b'_def c'_def)
  from div_mod_digits [OF lt(1), of "a' * 0x40 + b'"]
  have d1: "r div 0x40 = a' * 0x40 + b'" and m1: "r mod 0x40 = c'" by (simp_all only: r')
  from div_mod_digits [OF lt(2), of a']
  have d2: "(a' * 0x40 + b') div 0x40 = a'" and m2: "(a' * 0x40 + b') mod 0x40 = b'" by simp_all
  have "r div 0x1000 = r div 0x40 div 0x40" by (simp add: div_mult2_eq)
  with d1 d2 have d3: "r div 0x1000 = a'" by simp
  have orig: "a = 0xE0 + a'" "b = 0x80 + b'" "c = 0x80 + c'"
    using bounds bb by (simp_all add: a'_def b'_def c'_def)
  have r2: "r = a' * 0x1000 + b' * 0x40 + c'" unfolding r' by simp
  have lo: "0x800 \<le> r"
  proof (cases "a' = 0")
    case True
    with bounds orig have "0x20 \<le> b'" by simp
    then show ?thesis unfolding r2 by simp
  next
    case False
    then have "1 \<le> a'" by simp
    then have "0x1000 \<le> a' * 0x1000" by simp
    then show ?thesis unfolding r2 by simp
  qed
  have hi: "r \<le> 0xFFFF" using lt unfolding r2 by simp
  have sur: "\<not> (0xD800 \<le> r \<and> r \<le> 0xDFFF)"
  proof (cases "a' = 0xD")
    case True
    with bounds orig have "b' \<le> 0x1F" by simp
    with True lt show ?thesis unfolding r2 by simp
  next
    case False
    then have "a' < 0xD \<or> 0xE \<le> a'" by auto
    then show ?thesis
    proof
      assume "a' < 0xD"
      then have "a' * 0x1000 \<le> 0xC * 0x1000" by simp
      with lt show ?thesis unfolding r2 by simp
    next
      assume "0xE \<le> a'"
      then have "0xE * 0x1000 \<le> a' * 0x1000" by simp
      then show ?thesis unfolding r2 by simp
    qed
  qed
  from lo hi sur d3 d1 m2 m1 orig show ?thesis by simp
qed

lemma enc4:
  fixes a b c d :: nat
  assumes bounds: "0xF0 \<le> a" "a \<le> 0xF4" "(if a = 0xF0 then 0x90 else 0x80) \<le> b"
    "b \<le> (if a = 0xF4 then 0x8F else 0xBF)" "0x80 \<le> c" "c \<le> 0xBF" "0x80 \<le> d" "d \<le> 0xBF"
    and r: "r = (a mod 0x08) * 0x40000 + (b mod 0x40) * 0x1000 + (c mod 0x40) * 0x40 + d mod 0x40"
  shows "0xFFFF < r \<and> r \<le> 0x10FFFF
     \<and> 0xF0 + r div 0x40000 = a \<and> 0x80 + r div 0x1000 mod 0x40 = b
     \<and> 0x80 + r div 0x40 mod 0x40 = c \<and> 0x80 + r mod 0x40 = d"
proof -
  from bounds have bb: "0x80 \<le> b" "b \<le> 0xBF" by (simp_all split: if_splits)
  have a: "a mod 0x08 = a - 0xF0" using mod_in_block [of 30 "0x08" a] bounds by simp
  have b: "b mod 0x40 = b - 0x80" using mod_in_block [of 2 "0x40" b] bb by simp
  have c: "c mod 0x40 = c - 0x80" using mod_in_block [of 2 "0x40" c] bounds by simp
  have d: "d mod 0x40 = d - 0x80" using mod_in_block [of 2 "0x40" d] bounds by simp
  define a' b' c' d' where "a' = a - 0xF0" and "b' = b - 0x80" and "c' = c - 0x80" and "d' = d - 0x80"
  have r': "r = ((a' * 0x40 + b') * 0x40 + c') * 0x40 + d'"
    by (simp only: r a b c d a'_def b'_def c'_def d'_def) simp
  have lt: "d' < 0x40" "c' < 0x40" "b' < 0x40" "a' \<le> 4"
    using bounds bb by (simp_all add: a'_def b'_def c'_def d'_def)
  from div_mod_digits [OF lt(1), of "(a' * 0x40 + b') * 0x40 + c'"]
  have d1: "r div 0x40 = (a' * 0x40 + b') * 0x40 + c'" and m1: "r mod 0x40 = d'"
    by (simp_all only: r')
  from div_mod_digits [OF lt(2), of "a' * 0x40 + b'"]
  have d2: "((a' * 0x40 + b') * 0x40 + c') div 0x40 = a' * 0x40 + b'"
    and m2: "((a' * 0x40 + b') * 0x40 + c') mod 0x40 = c'" by simp_all
  from div_mod_digits [OF lt(3), of a']
  have d3: "(a' * 0x40 + b') div 0x40 = a'" and m3: "(a' * 0x40 + b') mod 0x40 = b'" by simp_all
  have "r div 0x1000 = r div 0x40 div 0x40" by (simp add: div_mult2_eq)
  with d1 d2 have e2: "r div 0x1000 = a' * 0x40 + b'" by simp
  have "r div 0x40000 = r div 0x1000 div 0x40" by (simp add: div_mult2_eq)
  with e2 d3 have e3: "r div 0x40000 = a'" by simp
  have orig: "a = 0xF0 + a'" "b = 0x80 + b'" "c = 0x80 + c'" "d = 0x80 + d'"
    using bounds bb by (simp_all add: a'_def b'_def c'_def d'_def)
  have r2: "r = a' * 0x40000 + b' * 0x1000 + c' * 0x40 + d'" unfolding r' by simp
  have lo: "0xFFFF < r"
  proof (cases "a' = 0")
    case True
    with bounds orig have "0x10 \<le> b'" by simp
    then have "0x10 * 0x1000 \<le> b' * 0x1000" by (simp only: mult_le_mono1)
    then show ?thesis unfolding r2 by simp
  next
    case False
    then have "1 \<le> a'" by simp
    then have "1 * 0x40000 \<le> a' * 0x40000" by (simp only: mult_le_mono1)
    then show ?thesis unfolding r2 by simp
  qed
  have hi: "r \<le> 0x10FFFF"
  proof (cases "a' = 4")
    case True
    with bounds orig have "b' \<le> 0xF" by simp
    then have "b' * 0x1000 \<le> 0xF * 0x1000" by (simp only: mult_le_mono1)
    moreover from lt have "c' * 0x40 \<le> 0x3F * 0x40" by simp
    ultimately show ?thesis using True lt unfolding r2 by simp
  next
    case False
    with lt have "a' \<le> 3" by simp
    then have "a' * 0x40000 \<le> 3 * 0x40000" by (simp only: mult_le_mono1)
    moreover from lt have "b' * 0x1000 \<le> 0x3F * 0x1000" by simp
    moreover from lt have "c' * 0x40 \<le> 0x3F * 0x40" by simp
    ultimately show ?thesis using lt unfolding r2 by simp
  qed
  from lo hi e3 e2 m3 d1 m2 m1 orig show ?thesis by simp
qed

lemma Decode_valid_cases:
  assumes "DecodeRuneInString (c0 # s) = (r, sz)" and "\<not> (r = RuneError \<and> sz = 1)"
  obtains
    (ascii) "byte c0 < 0x80" "r = byte c0" "sz = 1"
  | (two) c1 t where "s = c1 # t" "0xC2 \<le> byte c0" "byte c0 \<le> 0xDF"
      "0x80 \<le> byte c1" "byte c1 \<le> 0xBF"
      "r = (byte c0 mod 0x20) * 0x40 + byte c1 mod 0x40" "sz = 2"
  | (three) c1 c2 t where "s = c1 # c2 # t" "0xE0 \<le> byte c0" "byte c0 \<le> 0xEF"
      "(if byte c0 = 0xE0 then 0xA0 else 0x80) \<le> byte c1"
      "byte c1 \<le> (if byte c0 = 0xED then 0x9F else 0xBF)"
      "0x80 \<le> byte c2" "byte c2 \<le> 0xBF"
      "r = (byte c0 mod 0x10) * 0x1000 + (byte c1 mod 0x40) * 0x40 + byte c2 mod 0x40" "sz = 3"
  | (four) c1 c2 c3 t where "s = c1 # c2 # c3 # t" "0xF0 \<le> byte c0" "byte c0 \<le> 0xF4"
      "(if byte c0 = 0xF0 then 0x90 else 0x80) \<le> byte c1"
      "byte c1 \<le> (if byte c0 = 0xF4 then 0x8F else 0xBF)"
      "0x80 \<le> byte c2" "byte c2 \<le> 0xBF" "0x80 \<le> byte c3" "byte c3 \<le> 0xBF"
      "r = (byte c0 mod 0x08) * 0x40000 + (byte c1 mod 0x40) * 0x1000
             + (byte c2 mod 0x40) * 0x40 + byte c3 mod 0x40" "sz = 4"
proof (cases "byte c0 < 0x80")
  case True
  with assms(1) have "r = byte c0" "sz = 1"
    by (simp_all add: DecodeRuneInString.simps)
  with True show ?thesis by (rule ascii)
next
  case high: False
  show ?thesis
  proof (cases "0xC2 \<le> byte c0 \<and> byte c0 \<le> 0xDF")
    case True
    with high assms have "\<exists>c1 t. s = c1 # t \<and> continuation 0x80 0xBF c1
        \<and> r = (byte c0 mod 0x20) * 0x40 + byte c1 mod 0x40 \<and> sz = 2"
      by (cases s) (auto simp: DecodeRuneInString.simps Let_def split: if_splits)
    with True show ?thesis
      using two by (auto simp: continuation_def)
  next
    case not2: False
    show ?thesis
    proof (cases "0xE0 \<le> byte c0 \<and> byte c0 \<le> 0xEF")
      case True
      with high not2 assms have "\<exists>c1 c2 t. s = c1 # c2 # t
          \<and> continuation (if byte c0 = 0xE0 then 0xA0 else 0x80) (if byte c0 = 0xED then 0x9F else 0xBF) c1
          \<and> continuation 0x80 0xBF c2
          \<and> r = (byte c0 mod 0x10) * 0x1000 + (byte c1 mod 0x40) * 0x40 + byte c2 mod 0x40 \<and> sz = 3"
        by (cases s; cases "tl s")
           (auto simp: DecodeRuneInString.simps Let_def split: if_splits)
      with True show ?thesis
        using three unfolding continuation_def by blast
    next
      case not3: False
      show ?thesis
      proof (cases "0xF0 \<le> byte c0 \<and> byte c0 \<le> 0xF4")
        case True
        with high not2 not3 assms have "\<exists>c1 c2 c3 t. s = c1 # c2 # c3 # t
            \<and> continuation (if byte c0 = 0xF0 then 0x90 else 0x80) (if byte c0 = 0xF4 then 0x8F else 0xBF) c1
            \<and> continuation 0x80 0xBF c2 \<and> continuation 0x80 0xBF c3
            \<and> r = (byte c0 mod 0x08) * 0x40000 + (byte c1 mod 0x40) * 0x1000
                  + (byte c2 mod 0x40) * 0x40 + byte c3 mod 0x40 \<and> sz = 4"
          by (cases s; cases "tl s"; cases "tl (tl s)")
             (auto simp: DecodeRuneInString.simps Let_def split: if_splits)
        with True show ?thesis
          using four unfolding continuation_def by blast
      next
        case False
        with high not2 not3 assms show ?thesis
          by (auto simp: DecodeRuneInString.simps Let_def split: if_splits)
      qed
    qed
  qed
qed

lemma AppendRune_Decode:
  assumes "DecodeRuneInString (c0 # s) = (r, sz)" and "\<not> (r = RuneError \<and> sz = 1)"
  shows "AppendRune buf r = buf @ take sz (c0 # s)
     \<and> length (take sz (c0 # s)) = sz
     \<and> (0x80 \<le> byte c0 \<longrightarrow> 0x80 \<le> r \<and> (\<forall>x \<in> set (take sz (c0 # s)). 0x80 \<le> byte x))"
  using assms
proof (cases rule: Decode_valid_cases)
  case ascii
  then show ?thesis by (simp add: AppendRune_def char_of_byte)
next
  case (two c1 t)
  from enc2 [OF two(2-6)]
  have e: "0x80 \<le> r" "r \<le> 0x7FF" "0xC0 + r div 0x40 = byte c0" "0x80 + r mod 0x40 = byte c1"
    by simp_all
  from e(1,2) have "AppendRune buf r = buf @ [char_of (0xC0 + r div 0x40), char_of (0x80 + r mod 0x40)]"
    by (simp add: AppendRune_def)
  then have "AppendRune buf r = buf @ [c0, c1]"
    by (simp only: e char_of_byte)
  with e(1) two(1,2,4,7) show ?thesis by simp
next
  case (three c1 c2 t)
  from enc3 [OF three(2-8)]
  have e: "0x800 \<le> r" "r \<le> 0xFFFF" "\<not> (0xD800 \<le> r \<and> r \<le> 0xDFFF)"
    "0xE0 + r div 0x1000 = byte c0" "0x80 + r div 0x40 mod 0x40 = byte c1" "0x80 + r mod 0x40 = byte c2"
    by simp_all
  from e(1,2,3) have "AppendRune buf r = buf @ EncodeRune3 r"
    by (auto simp: AppendRune_def MaxRune_def)
  then have "AppendRune buf r = buf @ [c0, c1, c2]"
    by (simp only: EncodeRune3_def e char_of_byte)
  moreover from three(4) have "0x80 \<le> byte c1" by (simp split: if_splits)
  ultimately show ?thesis using e(1) three(1,2,6,9) by simp
next
  case (four c1 c2 c3 t)
  from enc4 [OF four(2-10)]
  have e: "0xFFFF < r" "r \<le> 0x10FFFF"
    "0xF0 + r div 0x40000 = byte c0" "0x80 + r div 0x1000 mod 0x40 = byte c1"
    "0x80 + r div 0x40 mod 0x40 = byte c2" "0x80 + r mod 0x40 = byte c3"
    by simp_all
  from e(1,2) have "AppendRune buf r = buf @ [char_of (0xF0 + r div 0x40000),
      char_of (0x80 + r div 0x1000 mod 0x40), char_of (0x80 + r div 0x40 mod 0x40),
      char_of (0x80 + r mod 0x40)]"
    by (simp add: AppendRune_def MaxRune_def)
  then have "AppendRune buf r = buf @ [c0, c1, c2, c3]"
    by (simp only: e char_of_byte)
  moreover from four(4) have "0x80 \<le> byte c1" by (simp split: if_splits)
  ultimately show ?thesis using e(1) four(1,2,6,8,11) by simp
qed



lemma coerce_utf8_valid: "ValidString s \<Longrightarrow> coerce_utf8 s = s"
proof (induction s rule: ValidString.induct)
  case 1
  then show ?case by simp
next
  case (2 c s)
  obtain r sz where d: "DecodeRuneInString (c # s) = (r, sz)"
    by (cases "DecodeRuneInString (c # s)")
  with "2.prems" have v: "\<not> (r = RuneError \<and> sz = 1)" and rest: "ValidString (drop sz (c # s))"
    by simp_all
  from "2.IH" [OF d [symmetric] rest] have "coerce_utf8 (drop sz (c # s)) = drop sz (c # s)" .
  moreover from AppendRune_Decode [OF d v, of "[]"] have "AppendRune [] r = take sz (c # s)" by simp
  ultimately have "coerce_utf8 (c # s) = take sz (c # s) @ drop sz (c # s)"
    using d by simp
  then show ?case by (simp only: append_take_drop_id)
qed




































subsection \<open>SetResponseMeta\<close>

text \<open>
  C7: without a response the target is left as it was and its SetMeta is not called;
  with a response SetMeta is called exactly once, with the status code and the headers of
  the response and with the body that was read, or with an empty body when reading failed.
\<close>

theorem SetResponseMeta_once:
  "SetResponseMeta None setMeta target = target
   \<and> SetResponseMeta None record_SetMeta calls = calls
   \<and> SetResponseMeta (Some \<lparr>resp_Header = h, resp_StatusCode = code, resp_Body = Reader bytes None\<rparr>)
         setMeta target
       = setMeta target \<lparr>Header = h, StatusCode = code, Body = bytes\<rparr>
   \<and> SetResponseMeta (Some \<lparr>resp_Header = h, resp_StatusCode = code, resp_Body = Reader bytes (Some e)\<rparr>)
         setMeta target
       = setMeta target \<lparr>Header = h, StatusCode = code, Body = []\<rparr>
   \<and> SetResponseMeta (Some r) record_SetMeta calls
       = calls @ [\<lparr>Header = resp_Header r, StatusCode = resp_StatusCode r,
                   Body = (case ReadAll (resp_Body r) of (body, None) \<Rightarrow> body | (body, Some err) \<Rightarrow> [])\<rparr>]
   \<and> ResponseMetaData (SetResponseMeta (Some r) SetMeta resp)
       = \<lparr>Header = resp_Header r, StatusCode = resp_StatusCode r,
           Body = (case ReadAll (resp_Body r) of (body, None) \<Rightarrow> body | (body, Some err) \<Rightarrow> [])\<rparr>"
proof -
  obtain body err where r: "ReadAll (resp_Body r) = (body, err)"
    by (cases "ReadAll (resp_Body r)")
  show ?thesis
    by (cases err) (simp_all add: SetResponseMeta_def record_SetMeta_def SetMeta_def r)
qed

subsection \<open>ParseError\<close>

lemma decode_member_other:
  assumes "foldName (fst m) \<noteq> ''MESSAGE''"
  shows "Message (fst (decode_member st m)) = Message (fst st)"
proof -
  obtain v saved where st: "st = (v, saved)" by (cases st)
  obtain key j where m: "m = (key, j)" by (cases m)
  from assms m have k: "foldName key \<noteq> ''MESSAGE''" by simp
  show ?thesis
    unfolding st m decode_member_def using k
    by (cases j) (simp_all del: foldName.simps)
qed

lemma foldl_decode_member_other:
  assumes "\<forall>m \<in> set ms. foldName (fst m) \<noteq> ''MESSAGE''"
  shows "Message (fst (foldl decode_member st ms)) = Message (fst st)"
  using assms
proof (induction ms arbitrary: st)
  case Nil
  then show ?case by simp
next
  case (Cons m ms)
  from Cons.prems have m: "foldName (fst m) \<noteq> ''MESSAGE''"
    and ms: "\<forall>m \<in> set ms. foldName (fst m) \<noteq> ''MESSAGE''" by simp_all
  from Cons.IH [OF ms, of "decode_member st m"] decode_member_other [OF m, of st]
  show ?case by simp
qed

lemma decode_member_string:
  assumes "foldName key = ''MESSAGE''"
  shows "Message (fst (decode_member st (key, JString v))) = v"
proof -
  obtain a saved where st: "st = (a, saved)" by (cases st)
  show ?thesis
    unfolding st decode_member_def using assms
    by (simp del: foldName.simps)
qed

lemma ParseError_cases:
  "ParseError body =
     (case snd (json_Unmarshal_ApiError body \<lparr>Message = [], Reason = []\<rparr>) of
        Some err \<Rightarrow> Some (JSONError err)
      | None \<Rightarrow> Some (ApiErr (fst (json_Unmarshal_ApiError body \<lparr>Message = [], Reason = []\<rparr>))))"
  by (cases "json_Unmarshal_ApiError body \<lparr>Message = [], Reason = []\<rparr>")
     (simp add: ParseError_def split: option.splits)

text \<open>
  C8: ParseError never returns nil. When decoding fails it returns the error of the decoder,
  which is not an ApiError; when decoding succeeds it returns the decoded ApiError, and
  when the body is an object whose last member named message (whatever the case of the
  letters) is a string, that string is the message of the error. The text \<open>not json\<close>
  gives a syntax error, and a body with the message \<open>not found\<close> gives the ApiError with
  that message.
\<close>

theorem ParseError_decodes:
  "ParseError body \<noteq> None
   \<and> (\<forall>err. snd (json_Unmarshal_ApiError body \<lparr>Message = [], Reason = []\<rparr>) = Some err \<longrightarrow>
         ParseError body = Some (JSONError err) \<and> (\<forall>a. ParseError body \<noteq> Some (ApiErr a)))
   \<and> (snd (json_Unmarshal_ApiError body \<lparr>Message = [], Reason = []\<rparr>) = None \<longrightarrow>
         ParseError body = Some (ApiErr (fst (json_Unmarshal_ApiError body \<lparr>Message = [], Reason = []\<rparr>))))
   \<and> (\<forall>ms1 key v ms2.
         json_parse body = Some (JObject (ms1 @ (key, JString v) # ms2))
         \<and> foldName key = ''MESSAGE'' \<and> (\<forall>m \<in> set ms2. foldName (fst m) \<noteq> ''MESSAGE'')
         \<and> snd (json_Unmarshal_ApiError body \<lparr>Message = [], Reason = []\<rparr>) = None \<longrightarrow>
         (\<exists>a. ParseError body = Some (ApiErr a) \<and> ApiError_Error a = v))
   \<and> ParseError ''not json'' = Some (JSONError SyntaxError)
   \<and> ParseError not_found_body = Some (ApiErr \<lparr>Message = ''not found'', Reason = []\<rparr>)"
proof (intro conjI allI impI)
  show "ParseError body \<noteq> None"
    by (simp add: ParseError_cases split: option.splits)
next
  fix err assume "snd (json_Unmarshal_ApiError body \<lparr>Message = [], Reason = []\<rparr>) = Some err"
  then show "ParseError body = Some (JSONError err)" by (simp add: ParseError_cases)
next
  fix err a assume "snd (json_Unmarshal_ApiError body \<lparr>Message = [], Reason = []\<rparr>) = Some err"
  then show "ParseError body \<noteq> Some (ApiErr a)" by (simp add: ParseError_cases)
next
  assume "snd (json_Unmarshal_ApiError body \<lparr>Message = [], Reason = []\<rparr>) = None"
  then show "ParseError body = Some (ApiErr (fst (json_Unmarshal_ApiError body \<lparr>Message = [], Reason = []\<rparr>)))"
    by (simp add: ParseError_cases)
next
  fix ms1 key v ms2
  let ?U = "json_Unmarshal_ApiError body \<lparr>Message = [], Reason = []\<rparr>"
  assume a: "json_parse body = Some (JObject (ms1 @ (key, JString v) # ms2))
         \<and> foldName key = ''MESSAGE'' \<and> (\<forall>m \<in> set ms2. foldName (fst m) \<noteq> ''MESSAGE'')
         \<and> snd ?U = None"
  then have p: "json_parse body = Some (JObject (ms1 @ (key, JString v) # ms2))"
    and k: "foldName key = ''MESSAGE''" and o: "\<forall>m \<in> set ms2. foldName (fst m) \<noteq> ''MESSAGE''"
    and ok: "snd ?U = None" by (rule conjunct1, rule conjunct2 [THEN conjunct1],
      rule conjunct2 [THEN conjunct2, THEN conjunct1], rule conjunct2 [THEN conjunct2, THEN conjunct2])
  let ?st = "foldl decode_member (\<lparr>Message = [], Reason = []\<rparr>, None) ms1"
  from p have "?U = foldl decode_member (decode_member ?st (key, JString v)) ms2"
    by (simp add: json_Unmarshal_ApiError_def)
  then have "Message (fst ?U) = Message (fst (decode_member ?st (key, JString v)))"
    using foldl_decode_member_other [OF o] by simp
  with decode_member_string [OF k] have "Message (fst ?U) = v" by simp
  with ok show "\<exists>a. ParseError body = Some (ApiErr a) \<and> ApiError_Error a = v"
    by (simp add: ParseError_cases ApiError_Error_def)
next
  show "ParseError ''not json'' = Some (JSONError SyntaxError)" by code_simp
next
  show "ParseError not_found_body = Some (ApiErr \<lparr>Message = ''not found'', Reason = []\<rparr>)"
    by code_simp
qed

theorem ParseError_decodes_witness:
  "snd (json_Unmarshal_ApiError ''not json'' \<lparr>Message = [], Reason = []\<rparr>) = Some SyntaxError
   \<and> ParseError ''not json'' = Some (JSONError SyntaxError)
   \<and> json_parse not_found_body = Some (JObject ([] @ (''message'', JString ''not found'') # []))
   \<and> foldName ''message'' = ''MESSAGE''
   \<and> snd (json_Unmarshal_ApiError not_found_body \<lparr>Message = [], Reason = []\<rparr>) = None
   \<and> (\<exists>a. ParseError not_found_body = Some (ApiErr a) \<and> ApiError_Error a = ''not found'')"
proof -
  have f: "snd (json_Unmarshal_ApiError ''not json'' \<lparr>Message = [], Reason = []\<rparr>) = Some SyntaxError"
    by code_simp
  have p: "json_parse not_found_body = Some (JObject ([] @ (''message'', JString ''not found'') # []))"
    by code_simp
  have k: "foldName ''message'' = ''MESSAGE''"
    by code_simp
  have ok: "snd (json_Unmarshal_ApiError not_found_body \<lparr>Message = [], Reason = []\<rparr>) = None"
    by code_simp
  have o: "\<forall>m \<in> set ([] :: (string \<times> string json) list). foldName (fst m) \<noteq> ''MESSAGE''"
    by simp
  from ParseError_decodes [of "''not json''", THEN conjunct2, THEN conjunct1, rule_format, OF f]
  have e1: "ParseError ''not json'' = Some (JSONError SyntaxError)" by (rule conjunct1)
  from ParseError_decodes [of not_found_body, THEN conjunct2, THEN conjunct2, THEN conjunct2,
      THEN conjunct1, rule_format, of "[]" "''message''" "''not found''" "[]"] p k o ok
  have e2: "\<exists>a. ParseError not_found_body = Some (ApiErr a) \<and> ApiError_Error a = ''not found''"
    by (simp only: simp_thms)
  from f e1 p k ok e2 show ?thesis by (intro conjI)
qed

subsection \<open>IsValidURL\<close>

lemma getScheme_loop_scheme:
  assumes "getScheme_loop rawURL i cs = Some (scheme, rest)" and "scheme \<noteq> []"
    and "rawURL = pre @ cs" and "i = length pre" and "list_all scheme_char pre"
    and "pre \<noteq> [] \<longrightarrow> isLetter (hd pre)"
  shows "rawURL = scheme @ CHR '':'' # rest \<and> list_all scheme_char scheme \<and> isLetter (hd scheme)"
  using assms
proof (induction cs arbitrary: i pre)
  case Nil
  then show ?case by simp
next
  case (Cons c cs)
  have step: "getScheme_loop rawURL (i + 1) cs = Some (scheme, rest) \<Longrightarrow> scheme_char c
      \<Longrightarrow> (pre = [] \<longrightarrow> isLetter c) \<Longrightarrow> ?case"
  proof -
    assume run: "getScheme_loop rawURL (i + 1) cs = Some (scheme, rest)" and c: "scheme_char c"
      and first: "pre = [] \<longrightarrow> isLetter c"
    have "rawURL = (pre @ [c]) @ cs" using Cons.prems(3) by simp
    moreover have "i + 1 = length (pre @ [c])" using Cons.prems(4) by simp
    moreover have "list_all scheme_char (pre @ [c])" using Cons.prems(5) c by simp
    moreover have "pre @ [c] \<noteq> [] \<longrightarrow> isLetter (hd (pre @ [c]))"
      using Cons.prems(6) first by (cases pre) simp_all
    ultimately show ?case using Cons.IH [OF run Cons.prems(2)] by blast
  qed
  show ?case
  proof (cases "isLetter c")
    case True
    with Cons.prems(1) have "getScheme_loop rawURL (i + 1) cs = Some (scheme, rest)" by simp
    then show ?thesis using True by (intro step) (simp_all add: scheme_char_def)
  next
    case False
    note nl = this
    show ?thesis
    proof (cases "isDigit c \<or> c = CHR ''+'' \<or> c = CHR ''-'' \<or> c = CHR ''.''")
      case True
      show ?thesis
      proof (cases "i = 0")
        case True
        with nl \<open>isDigit c \<or> c = CHR ''+'' \<or> c = CHR ''-'' \<or> c = CHR ''.''\<close> Cons.prems(1,2)
        show ?thesis by simp
      next
        case False
        with nl True Cons.prems(1) have "getScheme_loop rawURL (i + 1) cs = Some (scheme, rest)"
          by simp
        moreover have "scheme_char c" using True by (auto simp add: scheme_char_def)
        moreover have "pre \<noteq> []" using False Cons.prems(4) by simp
        ultimately show ?thesis by (intro step) simp_all
      qed
    next
      case False
      show ?thesis
      proof (cases "c = CHR '':''")
        case True
        show ?thesis
        proof (cases "i = 0")
          case True
          with nl False \<open>c = CHR '':''\<close> Cons.prems(1) show ?thesis by simp
        next
          case i: False
          with nl False True Cons.prems(1)
          have "scheme = take i rawURL" "rest = drop (i + 1) rawURL" by simp_all
          with Cons.prems(3,4) True have "scheme = pre" "rest = cs" by simp_all
          with Cons.prems True i show ?thesis by simp
        qed
      next
        case nc: False
        with nl False Cons.prems(1,2) show ?thesis by simp
      qed
    qed
  qed
qed

lemma getScheme_scheme:
  assumes "getScheme rawURL = Some (scheme, rest)" and "scheme \<noteq> []"
  shows "rawURL = scheme @ CHR '':'' # rest \<and> list_all scheme_char scheme \<and> isLetter (hd scheme)"
  using getScheme_loop_scheme [of rawURL 0 rawURL scheme rest "[]"] assms
  by (simp add: getScheme_def)

lemma ToLower_Nil: "ToLower s = [] \<longleftrightarrow> s = []"
  by (simp add: ToLower_def)

lemma parse_Scheme:
  assumes "parse ar u = Inr url" and "Scheme url \<noteq> []"
  shows "\<exists>scheme rest. getScheme u = Some (scheme, rest) \<and> scheme \<noteq> []"
proof (cases "getScheme u")
  case None
  with assms show ?thesis by (auto simp add: parse_def split: if_splits)
next
  case (Some p)
  obtain scheme rest where p: "p = (scheme, rest)" by (cases p)
  have "scheme \<noteq> []"
  proof
    assume "scheme = []"
    with assms Some p show False
      by (auto simp add: parse_def Let_def ToLower_Nil split: if_splits)
  qed
  with Some p show ?thesis by simp
qed

lemma url_Parse_Scheme:
  assumes "url_Parse ar s = Inr url" and "Scheme url \<noteq> []"
  shows "\<exists>scheme rest. getScheme (fst (Cut s (CHR ''#''))) = Some (scheme, rest) \<and> scheme \<noteq> []"
proof -
  obtain u frag found where c: "Cut s (CHR ''#'') = (u, frag, found)" by (cases "Cut s (CHR ''#'')")
  with assms(1) have "parse ar u = Inr url"
    by (simp add: url_Parse_def split: sum.splits if_splits)
  from parse_Scheme [OF this assms(2)] c show ?thesis by simp
qed

lemma IsValidURL_iff:
  "IsValidURL ar s \<longleftrightarrow> (\<exists>u. url_Parse ar s = Inr u \<and> Scheme u \<noteq> [])"
  by (simp add: IsValidURL_def split: sum.splits)

lemma IsValidURL_getScheme:
  assumes "IsValidURL ar s"
  shows "\<exists>scheme rest. getScheme (fst (Cut s (CHR ''#''))) = Some (scheme, rest) \<and> scheme \<noteq> []"
  using assms url_Parse_Scheme unfolding IsValidURL_iff by blast

lemma slash_no_scheme:
  assumes "HasPrefix s ''/''"
  shows "getScheme (fst (Cut s (CHR ''#''))) = Some ([], fst (Cut s (CHR ''#'')))"
proof -
  from assms obtain t where s: "s = CHR ''/'' # t" by (cases s) (simp_all add: HasPrefix_def)
  have "fst (Cut s (CHR ''#'')) = CHR ''/'' # fst (Cut t (CHR ''#''))"
    by (simp add: s Cut_def)
  moreover have "\<not> isLetter CHR ''/''" "\<not> isDigit CHR ''/''"
    by (simp_all add: isLetter_def isDigit_def byte_def)
  ultimately show ?thesis by (simp add: getScheme_def)
qed

lemma example_getScheme:
  "getScheme ''https://example.com/x'' = Some (''https'', ''//example.com/x'')"
  "getScheme ''not a url'' = Some ([], ''not a url'')"
  by code_simp+

lemma example_Cut:
  "Cut ''https://example.com/x'' (CHR ''#'') = (''https://example.com/x'', [], False)"
  "Cut ''not a url'' (CHR ''#'') = (''not a url'', [], False)"
  "Cut ''/local/path'' (CHR ''#'') = (''/local/path'', [], False)"
  by code_simp+

lemma example_parse:
  "parse ar ''https://example.com/x''
     = Inr \<lparr>Scheme = ''https'', Opaque = [], RawQuery = [], ForceQuery = False, OmitHost = False\<rparr>"
proof -
  have 1: "\<not> stringContainsCTLByte ''https://example.com/x''" by code_simp
  have 2: "ToLower ''https'' = ''https''" by code_simp
  have 3: "Cut ''//example.com/x'' (CHR ''?'') = (''//example.com/x'', [], False)" by code_simp
  have 4: "HasPrefix ''//example.com/x'' ''/''" "HasPrefix ''//example.com/x'' ''//''" by code_simp+
  have 5: "takeWhile (\<lambda>c. c \<noteq> CHR ''/'') ''example.com/x'' = ''example.com''"
    "dropWhile (\<lambda>c. c \<noteq> CHR ''/'') ''example.com/x'' = ''/x''" by code_simp+
  have 6: "list_all unreserved ''example.com''" by code_simp
  have 7: "valid_escapes ''/x''" by code_simp
  have 8: "count_list ''//example.com/x'' (CHR ''?'') = 0" by code_simp
  show ?thesis
    unfolding parse_def Let_def example_getScheme
    by (simp add: 1 2 3 4 5 6 7 8 parseAuthority_ok_def del: valid_escapes.simps list.pred_inject
        takeWhile.simps dropWhile.simps)
qed

text \<open>
  C9: \<open>IsValidURL\<close> is true exactly when \<open>url.Parse\<close> returns a URL, without an error, whose
  scheme is not empty. Then the text before the first \<open>#\<close> is a scheme, a colon and a rest,
  and the scheme is a letter followed by letters, digits and \<open>+ - .\<close> only. A string for
  which \<open>getScheme\<close> finds no such scheme is not a valid URL, in particular every string that
  begins with a slash. \<open>https://example.com/x\<close> is a valid URL; \<open>not a url\<close> and
  \<open>/local/path\<close> are not.
\<close>

theorem IsValidURL_scheme:
  "(IsValidURL ar s \<longleftrightarrow> (\<exists>u. url_Parse ar s = Inr u \<and> Scheme u \<noteq> []))
   \<and> (IsValidURL ar s \<longrightarrow>
        (\<exists>scheme rest. fst (Cut s (CHR ''#'')) = scheme @ CHR '':'' # rest \<and> scheme \<noteq> []
           \<and> getScheme (fst (Cut s (CHR ''#''))) = Some (scheme, rest)
           \<and> isLetter (hd scheme) \<and> list_all scheme_char scheme))
   \<and> ((\<forall>scheme rest. getScheme (fst (Cut s (CHR ''#''))) = Some (scheme, rest) \<longrightarrow> scheme = [])
        \<longrightarrow> \<not> IsValidURL ar s)
   \<and> (HasPrefix s ''/'' \<longrightarrow> \<not> IsValidURL ar s)
   \<and> IsValidURL ar ''https://example.com/x''
   \<and> \<not> IsValidURL ar ''not a url''
   \<and> \<not> IsValidURL ar ''/local/path''"
proof -
  have a: "IsValidURL ar s \<longleftrightarrow> (\<exists>u. url_Parse ar s = Inr u \<and> Scheme u \<noteq> [])" for s
    by (rule IsValidURL_iff)
  have b: "\<exists>scheme rest. fst (Cut s (CHR ''#'')) = scheme @ CHR '':'' # rest \<and> scheme \<noteq> []
           \<and> getScheme (fst (Cut s (CHR ''#''))) = Some (scheme, rest)
           \<and> isLetter (hd scheme) \<and> list_all scheme_char scheme" if "IsValidURL ar s"
  proof -
    from IsValidURL_getScheme [OF that] obtain scheme rest
      where g: "getScheme (fst (Cut s (CHR ''#''))) = Some (scheme, rest)" and n: "scheme \<noteq> []"
      by (elim exE conjE)
    note h = getScheme_scheme [OF g n]
    from h [THEN conjunct1] n g h [THEN conjunct2, THEN conjunct2] h [THEN conjunct2, THEN conjunct1]
    show ?thesis by (intro exI conjI)
  qed
  have c: "\<not> IsValidURL ar s"
    if "\<forall>scheme rest. getScheme (fst (Cut s (CHR ''#''))) = Some (scheme, rest) \<longrightarrow> scheme = []" for s
  proof
    assume "IsValidURL ar s"
    from IsValidURL_getScheme [OF this] obtain scheme rest
      where g: "getScheme (fst (Cut s (CHR ''#''))) = Some (scheme, rest)" and n: "scheme \<noteq> []"
      by (elim exE conjE)
    from that [rule_format, OF g] n show False by (rule notE [rotated])
  qed
  have d: "\<not> IsValidURL ar s" if "HasPrefix s ''/''" for s
  proof (rule c, intro allI impI)
    fix scheme rest
    assume "getScheme (fst (Cut s (CHR ''#''))) = Some (scheme, rest)"
    then show "scheme = []" unfolding slash_no_scheme [OF that] by simp
  qed
  have e: "IsValidURL ar ''https://example.com/x''"
    by (simp add: IsValidURL_def url_Parse_def example_Cut example_parse)
  have f: "\<not> IsValidURL ar ''not a url''"
  proof (rule c, intro allI impI)
    fix scheme rest
    assume "getScheme (fst (Cut ''not a url'' (CHR ''#''))) = Some (scheme, rest)"
    then show "scheme = []" unfolding example_Cut fst_conv example_getScheme by simp
  qed
  have g: "\<not> IsValidURL ar ''/local/path''"
  proof (rule d)
    show "HasPrefix ''/local/path'' ''/''" by code_simp
  qed
  from a [of s] b c [of s] d [of s] e f g show ?thesis
    by (intro conjI impI) assumption+
qed

theorem IsValidURL_scheme_witness:
  "IsValidURL (\<lambda>authority. False) ''https://example.com/x''
   \<and> (\<exists>scheme rest. fst (Cut ''https://example.com/x'' (CHR ''#'')) = scheme @ CHR '':'' # rest
         \<and> scheme \<noteq> []
         \<and> getScheme (fst (Cut ''https://example.com/x'' (CHR ''#''))) = Some (scheme, rest)
         \<and> isLetter (hd scheme) \<and> list_all scheme_char scheme)
   \<and> getScheme (fst (Cut ''not a url'' (CHR ''#''))) = Some ([], ''not a url'')
   \<and> \<not> IsValidURL (\<lambda>authority. False) ''not a url''
   \<and> HasPrefix ''/local/path'' ''/''
   \<and> \<not> IsValidURL (\<lambda>authority. False) ''/local/path''"
proof -
  note t = IsValidURL_scheme [of "\<lambda>authority. False" "''https://example.com/x''"]
  have v: "IsValidURL (\<lambda>authority. False) ''https://example.com/x''"
    by (rule t [THEN conjunct2, THEN conjunct2, THEN conjunct2, THEN conjunct2, THEN conjunct1])
  have s: "\<exists>scheme rest. fst (Cut ''https://example.com/x'' (CHR ''#'')) = scheme @ CHR '':'' # rest
         \<and> scheme \<noteq> []
         \<and> getScheme (fst (Cut ''https://example.com/x'' (CHR ''#''))) = Some (scheme, rest)
         \<and> isLetter (hd scheme) \<and> list_all scheme_char scheme"
    by (rule t [THEN conjunct2, THEN conjunct1, THEN mp, OF v])
  have n: "getScheme (fst (Cut ''not a url'' (CHR ''#''))) = Some ([], ''not a url'')"
    by code_simp
  have n': "\<forall>scheme rest. getScheme (fst (Cut ''not a url'' (CHR ''#''))) = Some (scheme, rest)
      \<longrightarrow> scheme = []"
    unfolding n by simp
  have nu: "\<not> IsValidURL (\<lambda>authority. False) ''not a url''"
    by (rule IsValidURL_scheme [of "\<lambda>authority. False" "''not a url''", THEN conjunct2,
          THEN conjunct2, THEN conjunct1, THEN mp, OF n'])
  have p: "HasPrefix ''/local/path'' ''/''" by code_simp
  have lp: "\<not> IsValidURL (\<lambda>authority. False) ''/local/path''"
    by (rule IsValidURL_scheme [of "\<lambda>authority. False" "''/local/path''", THEN conjunct2,
          THEN conjunct2, THEN conjunct2, THEN conjunct1, THEN mp, OF p])
  from v s n nu p lp show ?thesis by (intro conjI)
qed

subsection \<open>The fields that the encoder visits\<close>

lemma dominantField_unique:
  assumes "dominantField (by_tag g) = Some f"
  shows "filter (\<lambda>x. fst (snd x) = fst (snd f)) g = [f]"
proof -
  let ?T = "filter (\<lambda>x. fst (snd x)) g" and ?U = "filter (\<lambda>x. \<not> fst (snd x)) g"
  have T: "fst (snd x)" if "x \<in> set ?T" for x using that by simp
  have U: "\<not> fst (snd x)" if "x \<in> set ?U" for x using that by simp
  have tagged: "filter (\<lambda>x. fst (snd x) = True) g = ?T" by simp
  have untagged: "filter (\<lambda>x. fst (snd x) = False) g = ?U" by simp
  show ?thesis
  proof (cases ?T)
    case Nil
    note T_Nil = this
    show ?thesis
    proof (cases ?U)
      case Nil
      with T_Nil assms show ?thesis by (simp add: by_tag_def)
    next
      case (Cons u us)
      note U_Cons = this
      show ?thesis
      proof (cases us)
        case Nil
        with T_Nil U_Cons assms have "f = u" by (simp add: by_tag_def)
        moreover from U [of u] U_Cons have "\<not> fst (snd u)" by simp
        ultimately show ?thesis using untagged U_Cons Nil by simp
      next
        case (Cons u' us')
        from U [of u] U [of u'] U_Cons Cons have "fst (snd u) = fst (snd u')" by simp
        with T_Nil U_Cons Cons assms show ?thesis by (simp add: by_tag_def)
      qed
    qed
  next
    case (Cons t ts)
    note T_Cons = this
    show ?thesis
    proof (cases ts)
      case Nil
      have "dominantField (t # ?U) = Some t"
      proof (cases ?U)
        case Nil
        then show ?thesis by simp
      next
        case (Cons u us)
        from T [of t] T_Cons have "fst (snd t)" by simp
        moreover from U [of u] Cons have "\<not> fst (snd u)" by simp
        ultimately show ?thesis using Cons by simp
      qed
      with assms T_Cons Nil have "f = t" by (simp add: by_tag_def)
      moreover from T [of t] T_Cons have "fst (snd t)" by simp
      ultimately show ?thesis using tagged T_Cons Nil by simp
    next
      case (Cons t' ts')
      from T [of t] T [of t'] T_Cons Cons have "fst (snd t) = fst (snd t')" by simp
      with T_Cons Cons assms show ?thesis by (simp add: by_tag_def)
    qed
  qed
qed

lemma dominantField_member:
  assumes "dominantField (by_tag g) = Some f"
  shows "f \<in> set g"
proof -
  from dominantField_unique [OF assms] have "f \<in> set (filter (\<lambda>x. fst (snd x) = fst (snd f)) g)"
    by simp
  then show ?thesis by simp
qed

lemma typeFields_group:
  "filter (\<lambda>f. fst f = n) (typeFields fs)
     = (case dominantField (by_tag (filter (\<lambda>g. fst g = n) fs)) of None \<Rightarrow> [] | Some f \<Rightarrow> [f])"
proof -
  let ?G = "filter (\<lambda>g. fst g = n) fs"
  let ?D = "dominantField (by_tag ?G)"
  have "filter (\<lambda>f. fst f = n) (typeFields fs)
      = filter (\<lambda>f. dominantField (by_tag (filter (\<lambda>g. fst g = fst f) fs)) = Some f \<and> fst f = n) fs"
    by (simp add: typeFields_def)
  also have "\<dots> = filter (\<lambda>f. ?D = Some f \<and> fst f = n) fs"
    by (rule filter_cong) auto
  also have "\<dots> = filter (\<lambda>f. ?D = Some f) ?G"
    by (simp add: conj_commute)
  finally have eq: "filter (\<lambda>f. fst f = n) (typeFields fs) = filter (\<lambda>f. ?D = Some f) ?G" .
  show ?thesis
  proof (cases ?D)
    case None
    with eq show ?thesis by simp
  next
    case (Some d)
    from dominantField_unique [OF Some]
    have u: "filter (\<lambda>x. fst (snd x) = fst (snd d)) ?G = [d]" .
    have "filter (\<lambda>f. ?D = Some f) ?G = filter (\<lambda>f. f = d) ?G"
      using Some by (auto intro: filter_cong)
    also have "\<dots> = filter (\<lambda>f. f = d) (filter (\<lambda>x. fst (snd x) = fst (snd d)) ?G)"
      unfolding filter_filter by (rule filter_cong) auto
    also have "\<dots> = [d]" unfolding u by simp
    finally show ?thesis using eq Some by simp
  qed
qed

lemma distinct_names:
  assumes "\<And>n. length (filter (\<lambda>f. fst f = n) ys) \<le> 1"
  shows "distinct (map fst ys)"
  using assms
proof (induction ys)
  case Nil
  then show ?case by simp
next
  case (Cons y ys)
  have "length (filter (\<lambda>f. fst f = n) ys) \<le> 1" for n
    using Cons.prems [of n] by (simp split: if_splits)
  then have "distinct (map fst ys)" by (rule Cons.IH)
  moreover have "fst y \<notin> fst ` set ys"
  proof
    assume "fst y \<in> fst ` set ys"
    then obtain z where "z \<in> set ys" "fst z = fst y" by auto
    then have "z \<in> set (filter (\<lambda>f. fst f = fst y) ys)" by simp
    then have "0 < length (filter (\<lambda>f. fst f = fst y) ys)" by (simp only: length_pos_if_in_set)
    with Cons.prems [of "fst y"] show False by simp
  qed
  ultimately show ?case by simp
qed

lemma typeFields_distinct: "distinct (map fst (typeFields fs))"
  by (rule distinct_names) (simp add: typeFields_group split: option.split)


lemma typeFields_only:
  assumes "filter (\<lambda>g. fst g = fst f) fs = [f]"
  shows "f \<in> set (typeFields fs)"
proof -
  have "dominantField (by_tag [f]) = Some f" by (cases "fst (snd f)") (simp_all add: by_tag_def)
  moreover have "f \<in> set (filter (\<lambda>g. fst g = fst f) fs)" unfolding assms by simp
  then have "f \<in> set fs" by simp
  ultimately show ?thesis using assms by (simp add: typeFields_def)
qed

subsection \<open>The generic mapping of a struct\<close>

lemma update_fresh: "k \<notin> fst ` set al \<Longrightarrow> AList.update k v al = al @ [(k, v)]"
  by (induction al) auto

lemma foldl_update_distinct:
  "distinct (map fst (acc @ xs)) \<Longrightarrow> foldl (\<lambda>m (key, j). AList.update key j m) acc xs = acc @ xs"
proof (induction xs arbitrary: acc)
  case Nil
  then show ?case by simp
next
  case (Cons x xs)
  obtain k v where x: "x = (k, v)" by (cases x)
  from Cons.prems x have "k \<notin> fst ` set acc" by auto
  then have u: "AList.update k v acc = acc @ [(k, v)]" by (rule update_fresh)
  from Cons.prems x have "distinct (map fst ((acc @ [(k, v)]) @ xs))" by simp
  from Cons.IH [OF this] show ?case by (simp add: x u)
qed

lemma collect_fields:
  assumes "collect (map (\<lambda>(name, tagged, omitEmpty, fv).
              case json_Marshal fv of Inl e \<Rightarrow> Inl e | Inr j \<Rightarrow> Inr (name, j)) E) = Inr ms"
  shows "map (\<lambda>(key, j). (key, valueInterface j)) ms
           = map (\<lambda>(name, tagged, omitEmpty, fv). (name, generic fv)) E
     \<and> (\<forall>g \<in> set E. \<exists>j. json_Marshal (snd (snd (snd g))) = Inr j)"
  using assms
proof (induction E arbitrary: ms)
  case Nil
  then show ?case by simp
next
  case (Cons g E)
  obtain name tagged omitEmpty fv where g: "g = (name, tagged, omitEmpty, fv)" by (cases g)
  from Cons.prems g obtain j where j: "json_Marshal fv = Inr j"
    by (cases "json_Marshal fv") simp_all
  from Cons.prems g j obtain ms' where ms': "collect (map (\<lambda>(name, tagged, omitEmpty, fv).
              case json_Marshal fv of Inl e \<Rightarrow> Inl e | Inr j \<Rightarrow> Inr (name, j)) E) = Inr ms'"
    and ms: "ms = (name, j) # ms'"
    by (auto split: sum.splits)
  from Cons.IH [OF ms'] g j ms show ?case by (simp add: generic_def)
qed

lemma map_coerce_utf8_valid:
  assumes "\<forall>k \<in> fst ` set ms. ValidString k"
  shows "map (\<lambda>(k, j). (coerce_utf8 k, j)) ms = ms"
proof -
  have "(\<lambda>(k, j). (coerce_utf8 k, j)) x = x" if "x \<in> set ms" for x
  proof -
    obtain k j where x: "x = (k, j)" by (cases x)
    with that assms have "ValidString k" by force
    then have "coerce_utf8 k = k" by (rule coerce_utf8_valid)
    with x show ?thesis by (simp del: coerce_utf8.simps)
  qed
  then show ?thesis by (simp add: map_idI del: coerce_utf8.simps)
qed

lemma visited_distinct: "distinct (map fst (visited fs))"
  unfolding visited_def by (rule distinct_map_filter) (rule typeFields_distinct)

lemma struct_generic_mapping:
  assumes ok: "snd (generic_mapping (GoStruct fs)) = None"
    and valid: "\<forall>g \<in> set fs. ValidString (fst g)"
  shows "fst (generic_mapping (GoStruct fs))
           = map (\<lambda>(name, tagged, omitEmpty, fv). (name, generic fv)) (visited fs)"
    and "\<forall>g \<in> set (visited fs). \<exists>j. json_Marshal (snd (snd (snd g))) = Inr j"
proof -
  let ?G = "\<lambda>(name, tagged, omitEmpty, fv).
      case json_Marshal fv of Inl e \<Rightarrow> Inl e | Inr j \<Rightarrow> Inr (name, j)"
  have m: "json_Marshal (GoStruct fs) =
      (case collect (map ?G (visited fs)) of Inl e \<Rightarrow> Inl e
       | Inr ms \<Rightarrow> Inr (JObject (map (\<lambda>(k, j). (coerce_utf8 k, j)) ms)))"
    by (simp add: visited_def del: coerce_utf8.simps)
  obtain ms where c: "collect (map ?G (visited fs)) = Inr ms"
  proof (cases "collect (map ?G (visited fs))")
    case (Inl e)
    with m have "json_Marshal (GoStruct fs) = Inl e" by simp
    with ok show ?thesis
      by (simp add: generic_mapping_def json_Unmarshal_map_def del: json_Marshal.simps)
  next
    case (Inr ms)
    then show ?thesis by (rule that)
  qed
  note cf = collect_fields [OF c]
  from cf show "\<forall>g \<in> set (visited fs). \<exists>j. json_Marshal (snd (snd (snd g))) = Inr j"
    by (rule conjunct2)
  let ?xs = "map (\<lambda>(name, tagged, omitEmpty, fv). (name, generic fv)) (visited fs)"
  from cf have xs: "map (\<lambda>(key, j). (key, valueInterface j)) ms = ?xs" by (rule conjunct1)
  then have "map fst (map (\<lambda>(key, j). (key, valueInterface j)) ms) = map fst ?xs" by (rule arg_cong)
  then have keys: "map fst ms = map fst (visited fs)"
    by (simp add: case_prod_unfold comp_def)
  then have "set (map fst ms) = set (map fst (visited fs))" by (rule arg_cong)
  then have sub: "fst ` set ms \<subseteq> fst ` set fs"
    using set_typeFields [of fs] by (auto simp: visited_def)
  have "\<forall>k \<in> fst ` set ms. ValidString k"
  proof
    fix k assume "k \<in> fst ` set ms"
    with sub have "k \<in> fst ` set fs" by (rule subsetD)
    then obtain g where "g \<in> set fs" and k: "k = fst g" by (elim imageE)
    from valid [rule_format, OF this(1)] show "ValidString k" unfolding k .
  qed
  then have co: "map (\<lambda>(k, j). (coerce_utf8 k, j)) ms = ms" by (rule map_coerce_utf8_valid)
  from m c co have doc: "json_Marshal (GoStruct fs) = Inr (JObject ms)" by simp
  have "distinct (map fst ?xs)"
    using visited_distinct [of fs] by (simp add: case_prod_unfold comp_def)
  then have "foldl (\<lambda>m (key, j). AList.update key j m) [] ?xs = ?xs"
    using foldl_update_distinct [of "[]" ?xs] by simp
  then have v: "valueInterface (JObject ms) = GoMap ?xs" by (simp add: xs)
  from ok doc have "\<not> depth (JObject ms) > maxNestingDepth"
    by (auto simp: generic_mapping_def json_Unmarshal_map_def simp del: json_Marshal.simps depth.simps
          split: if_splits)
  with doc v show "fst (generic_mapping (GoStruct fs)) = ?xs"
    by (simp add: generic_mapping_def json_Unmarshal_map_def
          del: json_Marshal.simps depth.simps valueInterface.simps)
qed




lemma struct_mapping_keys:
  assumes "snd (generic_mapping (GoStruct fs)) = None" and "\<forall>g \<in> set fs. ValidString (fst g)"
  shows "map fst (fst (generic_mapping (GoStruct fs))) = map fst (visited fs)"
  unfolding struct_generic_mapping(1) [OF assms] by (simp add: case_prod_unfold comp_def)

lemma visited_subset: "set (visited fs) \<subseteq> set fs"
  using set_typeFields [of fs] by (auto simp: visited_def)

lemma struct_mapping_names:
  assumes "snd (generic_mapping (GoStruct fs)) = None" and "\<forall>g \<in> set fs. ValidString (fst g)"
    and "k \<in> fst ` set (fst (generic_mapping (GoStruct fs)))"
  shows "\<exists>g \<in> set (visited fs). fst g = k"
proof -
  from assms(3) have "k \<in> set (map fst (fst (generic_mapping (GoStruct fs))))" by simp
  then have "k \<in> set (map fst (visited fs))" by (simp only: struct_mapping_keys [OF assms(1,2)])
  then show ?thesis by auto
qed




lemma StructToParams_GoPointer: "StructToParams f ro (GoPointer x) = StructToParams f ro x"
  by (simp add: StructToParams_def)

subsection \<open>Array fields\<close>






subsection \<open>Omitted fields\<close>

lemma generic_mapping_error:
  assumes "snd (generic_mapping x) \<noteq> None"
  shows "fst (generic_mapping x) = []"
  using assms
  by (auto simp: generic_mapping_def json_Unmarshal_map_def simp del: json_Marshal.simps
        split: sum.splits if_splits go_value.splits)

lemma omitted_absent:
  assumes valid: "\<forall>g \<in> set fs. ValidString (fst g)"
    and "isEmptyValue v"
    and only: "\<forall>g \<in> set (typeFields fs). fst g = name \<longrightarrow> g = (name, tagged, True, v)"
  shows "name \<notin> fst ` set (fst (generic_mapping (GoStruct fs)))"
proof (cases "snd (generic_mapping (GoStruct fs)) = None")
  case True
  show ?thesis
  proof
    assume "name \<in> fst ` set (fst (generic_mapping (GoStruct fs)))"
    from struct_mapping_names [OF True valid this] obtain g where g: "g \<in> set (visited fs)"
      and n: "fst g = name" by (elim bexE)
    from g have "g \<in> set (typeFields fs)" by (simp add: visited_def)
    from only [rule_format, OF this n] have "g = (name, tagged, True, v)" .
    with g assms(2) show False by (simp add: visited_def)
  qed
next
  case False
  then have "fst (generic_mapping (GoStruct fs)) = []" by (rule generic_mapping_error)
  then show ?thesis by simp
qed

lemma typeFields_remove:
  assumes "\<forall>g \<in> set fs. fst g = fst d \<longrightarrow> g = d"
  shows "typeFields (filter (\<lambda>g. g \<noteq> d) fs) = filter (\<lambda>g. g \<noteq> d) (typeFields fs)"
proof -
  have same: "filter (\<lambda>h. h \<noteq> d \<and> fst h = fst g) fs = filter (\<lambda>h. fst h = fst g) fs"
    if "g \<in> set fs" and "g \<noteq> d" for g
  proof -
    from assms that have ne: "fst g \<noteq> fst d" by auto
    show ?thesis by (rule filter_cong) (use ne in auto)
  qed
  have "typeFields (filter (\<lambda>g. g \<noteq> d) fs)
      = filter (\<lambda>f. dominantField (by_tag (filter (\<lambda>h. fst h = fst f) (filter (\<lambda>g. g \<noteq> d) fs))) = Some f)
          (filter (\<lambda>g. g \<noteq> d) fs)"
    by (simp only: typeFields_def)
  also have "\<dots> = filter (\<lambda>f. dominantField (by_tag (filter (\<lambda>h. fst h = fst f) fs)) = Some f)
          (filter (\<lambda>g. g \<noteq> d) fs)"
    by (rule filter_cong) (simp_all add: same)
  also have "\<dots> = filter (\<lambda>g. g \<noteq> d) (typeFields fs)"
    unfolding typeFields_def filter_filter by (rule filter_cong) auto
  finally show ?thesis .
qed

lemma visited_remove:
  assumes "\<forall>g \<in> set fs. fst g = name \<longrightarrow> g = (name, tagged, True, v)" and "isEmptyValue v"
  shows "visited (filter (\<lambda>g. g \<noteq> (name, tagged, True, v)) fs) = visited fs"
proof -
  let ?d = "(name, tagged, True, v)"
  from assms(1) have "\<forall>g \<in> set fs. fst g = fst ?d \<longrightarrow> g = ?d" by simp
  then have "typeFields (filter (\<lambda>g. g \<noteq> ?d) fs) = filter (\<lambda>g. g \<noteq> ?d) (typeFields fs)"
    by (rule typeFields_remove)
  then have "visited (filter (\<lambda>g. g \<noteq> ?d) fs)
      = filter (\<lambda>(name, tagged, omitEmpty, fv). \<not> (omitEmpty \<and> isEmptyValue fv))
          (filter (\<lambda>g. g \<noteq> ?d) (typeFields fs))"
    by (simp only: visited_def)
  also have "\<dots> = visited fs"
    unfolding visited_def filter_filter by (rule filter_cong) (use assms(2) in auto)
  finally show ?thesis .
qed

lemma json_Marshal_visited:
  "json_Marshal (GoStruct fs) =
     (case collect (map (\<lambda>(name, tagged, omitEmpty, fv).
                          case json_Marshal fv of Inl e \<Rightarrow> Inl e | Inr j \<Rightarrow> Inr (name, j))
                        (visited fs)) of
        Inl e \<Rightarrow> Inl e
      | Inr ms \<Rightarrow> Inr (JObject (map (\<lambda>(k, j). (coerce_utf8 k, j)) ms)))"
  by (simp add: visited_def del: coerce_utf8.simps)

text \<open>
  C3, as stated, fails: the zero value of a struct type is not empty for the encoder, and a
  field that holds it is written, and has a parameter, also when it is marked omitempty.
\<close>

theorem StructToParams_zero_struct_counterexample:
  "zero_struct_request = GoStruct [(''s'', True, True, GoStruct [])]
   \<and> zero_value (GoStruct [] :: nat go_value)
   \<and> snd (StructToParams decimal id zero_struct_request) = None
   \<and> the (fst (StructToParams decimal id zero_struct_request)) ''s'' = Some [''{}'']"
proof -
  have c: "coerce_utf8 ''s'' = ''s''"
    by (rule coerce_utf8_ascii, simp add: byte_def)
  have gm: "generic_mapping zero_struct_request = ([(''s'', GoMap [])], None)"
    using c by (simp add: generic_mapping_def zero_struct_request_def json_Unmarshal_map_def
          maxNestingDepth_def typeFields_def by_tag_def del: coerce_utf8.simps)
  have e: "encodeParamValue decimal (GoMap [] :: nat go_value) = (''{}'', None)"
    by (simp add: encodeParamValue_def HasPrefix_def Let_def)
  have "mset (id [(''s'', GoMap [] :: nat go_value)]) = mset [(''s'', GoMap [])]" by simp
  from StructToParams_ok [where ro = id and f = decimal, OF gm this]
  have 1: "StructToParams decimal id zero_struct_request
      = (Some (Map.empty(''s'' \<mapsto> [''{}''])), None)"
    by (simp add: emitted_pair e Add_def)
  show ?thesis unfolding 1 by (simp add: zero_struct_request_def)
qed

text \<open>
  C3, amended: a field of a request struct that is marked omitempty and holds a value that the
  encoder takes for empty (false, 0, nil, or an empty string, slice or map; not a struct, and
  not a pointer to a zero value) is skipped entirely. When the encoder takes no other field
  for its name, the name is not a key of the generic mapping; and when, further, no field has
  an indexed key equal to the name, the parameters have no entry under the name. When no
  other field has its name, the generic mapping and the result of StructToParams are those of
  the struct without the field. A pointer to the struct gives the result of the struct.
\<close>

theorem StructToParams_omitted_field:
  fixes f :: "'n::zero \<Rightarrow> string"
  assumes "(name, tagged, True, v) \<in> set fs" and "isEmptyValue v"
    and "\<forall>g \<in> set fs. ValidString (fst g)"
    and "\<forall>g \<in> set (typeFields fs). fst g = name \<longrightarrow> g = (name, tagged, True, v)"
  shows "name \<notin> fst ` set (fst (generic_mapping (GoStruct fs)))
     \<and> (\<forall>params. mset (ro (fst (generic_mapping (GoStruct fs)))) = mset (fst (generic_mapping (GoStruct fs)))
          \<and> (\<forall>g \<in> set fs. \<forall>j. Sprintf_index (fst g) j \<noteq> name)
          \<and> StructToParams f ro (GoStruct fs) = (Some params, None)
          \<longrightarrow> params name = None)
     \<and> ((\<forall>g \<in> set fs. fst g = name \<longrightarrow> g = (name, tagged, True, v)) \<longrightarrow>
          generic_mapping (GoStruct fs)
            = generic_mapping (GoStruct (filter (\<lambda>g. g \<noteq> (name, tagged, True, v)) fs))
          \<and> StructToParams f ro (GoStruct fs)
            = StructToParams f ro (GoStruct (filter (\<lambda>g. g \<noteq> (name, tagged, True, v)) fs)))
     \<and> StructToParams f ro (GoPointer (GoStruct fs)) = StructToParams f ro (GoStruct fs)"
proof -
  let ?S = "GoStruct fs :: 'n go_value"
  let ?S' = "GoStruct (filter (\<lambda>g. g \<noteq> (name, tagged, True, v)) fs) :: 'n go_value"
  have absent: "name \<notin> fst ` set (fst (generic_mapping ?S))"
    using assms(3,2,4) by (rule omitted_absent)
  have none: "params name = None"
    if perm: "mset (ro (fst (generic_mapping ?S))) = mset (fst (generic_mapping ?S))"
      and free: "\<forall>g \<in> set fs. \<forall>j. Sprintf_index (fst g) j \<noteq> name"
      and p: "StructToParams f ro ?S = (Some params, None)"
    for params
  proof -
    have ok: "snd (generic_mapping ?S) = None"
    proof (cases "snd (generic_mapping ?S)")
      case None
      then show ?thesis .
    next
      case (Some err)
      with p show ?thesis by (cases "generic_mapping ?S") (simp add: StructToParams_eq)
    qed
    then have gm: "generic_mapping ?S = (fst (generic_mapping ?S), None)"
      by (cases "generic_mapping ?S") simp
    have k: "\<forall>k \<in> fst ` set (fst (generic_mapping ?S)). \<forall>j. Sprintf_index k j \<noteq> name"
    proof (intro ballI allI)
      fix k j assume "k \<in> fst ` set (fst (generic_mapping ?S))"
      from struct_mapping_names [OF ok assms(3) this] obtain g where "g \<in> set (visited fs)"
        and g: "fst g = k" by (elim bexE)
      with visited_subset [of fs] have "g \<in> set fs" by (rule_tac subsetD)
      from free [rule_format, OF this, of j] show "Sprintf_index k j \<noteq> name" unfolding g .
    qed
    from gm perm absent k p show ?thesis by (rule absent_key [where ro = ro])
  qed
  have same: "generic_mapping ?S = generic_mapping ?S' \<and> StructToParams f ro ?S = StructToParams f ro ?S'"
    if "\<forall>g \<in> set fs. fst g = name \<longrightarrow> g = (name, tagged, True, v)"
  proof -
    from visited_remove [OF that assms(2)]
    have "json_Marshal ?S = json_Marshal ?S'" by (simp only: json_Marshal_visited)
    then show ?thesis by (simp only: generic_mapping_def StructToParams_def)
  qed
  show ?thesis
  proof (intro conjI allI impI)
    show "name \<notin> fst ` set (fst (generic_mapping ?S))" by (rule absent)
  next
    fix params
    assume a: "mset (ro (fst (generic_mapping ?S))) = mset (fst (generic_mapping ?S))
          \<and> (\<forall>g \<in> set fs. \<forall>j. Sprintf_index (fst g) j \<noteq> name)
          \<and> StructToParams f ro ?S = (Some params, None)"
    from a [THEN conjunct1] a [THEN conjunct2, THEN conjunct1] a [THEN conjunct2, THEN conjunct2]
    show "params name = None" by (rule none)
  next
    assume "\<forall>g \<in> set fs. fst g = name \<longrightarrow> g = (name, tagged, True, v)"
    from same [OF this] show "generic_mapping ?S = generic_mapping ?S'" by (rule conjunct1)
  next
    assume "\<forall>g \<in> set fs. fst g = name \<longrightarrow> g = (name, tagged, True, v)"
    from same [OF this] show "StructToParams f ro ?S = StructToParams f ro ?S'" by (rule conjunct2)
  next
    show "StructToParams f ro (GoPointer ?S) = StructToParams f ro ?S"
      by (rule StructToParams_GoPointer)
  qed
qed

theorem StructToParams_omitted_field_witness:
  "(''skip'', True, True, GoNumber 0) \<in> set paged_fields
   \<and> isEmptyValue (GoNumber (0::nat))
   \<and> ValidString ''limit'' \<and> ValidString ''skip''
   \<and> typeFields paged_fields = paged_fields
   \<and> ''skip'' \<notin> fst ` set (fst (generic_mapping (GoStruct paged_fields)))
   \<and> (\<exists>params. StructToParams decimal id (GoStruct paged_fields) = (Some params, None)
         \<and> params ''skip'' = None)
   \<and> StructToParams decimal id (GoStruct paged_fields)
       = StructToParams decimal id (GoStruct [(''limit'', True, False, GoNumber 10)])"
proof -
  have m: "(''skip'', True, True, GoNumber 0) \<in> set paged_fields" by (simp add: paged_fields_def)
  have e: "isEmptyValue (GoNumber (0::nat))" by simp
  have v: "ValidString ''limit''" "ValidString ''skip''"
    by (simp_all add: DecodeRuneInString.simps byte_def RuneError_def)
  then have valid: "\<forall>g \<in> set paged_fields. ValidString (fst g)"
    by (simp add: paged_fields_def del: ValidString.simps)
  have tf: "typeFields paged_fields = paged_fields"
    by (simp add: typeFields_def by_tag_def paged_fields_def)
  have only: "\<forall>g \<in> set (typeFields paged_fields). fst g = ''skip'' \<longrightarrow> g = (''skip'', True, True, GoNumber 0)"
    unfolding tf by (simp add: paged_fields_def)
  have only': "\<forall>g \<in> set paged_fields. fst g = ''skip'' \<longrightarrow> g = (''skip'', True, True, GoNumber 0)"
    by (simp add: paged_fields_def)
  note t = StructToParams_omitted_field [where f = decimal and ro = id, OF m e valid only]
  have c: "coerce_utf8 ''limit'' = ''limit''"
    by (rule coerce_utf8_ascii, simp add: byte_def)
  then have gm: "generic_mapping (GoStruct paged_fields) = ([(''limit'', GoNumber 10)], None)"
    by (simp add: generic_mapping_def paged_fields_def json_Unmarshal_map_def
          maxNestingDepth_def typeFields_def by_tag_def del: coerce_utf8.simps)
  have perm: "mset (id (fst (generic_mapping (GoStruct paged_fields))))
      = mset (fst (generic_mapping (GoStruct paged_fields)))"
    by simp
  have free: "\<forall>g \<in> set paged_fields. \<forall>j. Sprintf_index (fst g) j \<noteq> ''skip''"
    by (intro ballI allI Sprintf_index_ne_last) simp
  have "mset (id [(''limit'', GoNumber (10::nat))]) = mset [(''limit'', GoNumber 10)]" by simp
  with gm obtain params where p: "StructToParams decimal id (GoStruct paged_fields) = (Some params, None)"
    using StructToParams_ok [where ro = id and f = decimal and x = "GoStruct paged_fields"] by blast
  from t [THEN conjunct2, THEN conjunct1, rule_format, of params] perm free p
  have n: "params ''skip'' = None" by (simp only: simp_thms)
  from p n have ex: "\<exists>params. StructToParams decimal id (GoStruct paged_fields) = (Some params, None)
         \<and> params ''skip'' = None" by blast
  have rm: "filter (\<lambda>g. g \<noteq> (''skip'', True, True, GoNumber 0)) paged_fields
      = [(''limit'', True, False, GoNumber 10)]"
    by (simp add: paged_fields_def)
  from t [THEN conjunct2, THEN conjunct2, THEN conjunct1, THEN mp, OF only', THEN conjunct2]
  have s: "StructToParams decimal id (GoStruct paged_fields)
       = StructToParams decimal id (GoStruct [(''limit'', True, False, GoNumber 10)])"
    unfolding rm .
  from m e v tf t [THEN conjunct1] ex s show ?thesis by (intro conjI)
qed

end
